theory Spec2Isabelle
  imports Complex_Main "HOL-Library.AList" "HOL-Library.Option_ord"
begin

section \<open>Vector math\<close>

text \<open>
  Vectors are the one-dimensional float arrays of the source. The float32 arithmetic of
  the numeric library is modelled in exact real arithmetic, so rounding, infinities and
  NaN are outside the model; everything else (shapes, order of operations, the epsilon)
  is kept as the source has it.
\<close>

type_synonym vec = "real list"

definition dot :: "vec \<Rightarrow> vec \<Rightarrow> real" where
  "dot a b = sum_list (map2 (*) a b)"

definition l2norm :: "vec \<Rightarrow> real" where
  "l2norm v = sqrt (sum_list (map (\<lambda>x. x * x) v))"

definition eps :: real where
  "eps = 1 / 10 ^ 12"

text \<open>
  \<^verbatim>\<open>_normalize_np\<close> on an array: \<^verbatim>\<open>n = norm(arr) + 1e-12; return arr / n\<close>.
\<close>

definition normalize_vec :: "vec \<Rightarrow> vec" where
  "normalize_vec v = (let n = l2norm v + eps in map (\<lambda>x. x / n) v)"


datatype error = ValueError | IndexError

text \<open>
  A value handed to \<^verbatim>\<open>np.array(v, dtype=np.float32)\<close>: either a flat list of numbers,
  which converts, or anything the conversion rejects with an exception (a string, a list
  holding a string, a ragged list).
\<close>

datatype raw = Floats "real list" | NotNumeric

definition normalize_np :: "raw \<Rightarrow> error + vec" where
  "normalize_np v = (case v of NotNumeric \<Rightarrow> Inl ValueError | Floats arr \<Rightarrow> Inr (normalize_vec arr))"

text \<open>\<^verbatim>\<open>np.stack(rows, axis=0)\<close>: needs at least one array, and all of one shape.\<close>

definition np_stack :: "vec list \<Rightarrow> error + vec list" where
  "np_stack rows =
     (case rows of
        [] \<Rightarrow> Inl ValueError
      | r # rs \<Rightarrow> if list_all (\<lambda>x. length x = length r) rs then Inr rows else Inl ValueError)"

text \<open>\<^verbatim>\<open>P @ c\<close> for a stacked matrix and a vector: the row length must be the vector's.\<close>

definition matvec :: "vec list \<Rightarrow> vec \<Rightarrow> error + vec" where
  "matvec P c =
     (if list_all (\<lambda>r. length r = length c) P then Inr (map (\<lambda>r. dot r c) P) else Inl ValueError)"

text \<open>Elementwise sum of two one-dimensional arrays, with the library's broadcasting.\<close>

definition np_add :: "vec \<Rightarrow> vec \<Rightarrow> error + vec" where
  "np_add a b =
     (if length a = length b then Inr (map2 (+) a b)
      else case a of [x] \<Rightarrow> Inr (map (\<lambda>y. x + y) b)
      | _ \<Rightarrow> (case b of [y] \<Rightarrow> Inr (map (\<lambda>x. x + y) a) | _ \<Rightarrow> Inl ValueError))"

definition scale :: "real \<Rightarrow> vec \<Rightarrow> vec" where
  "scale a v = map (\<lambda>x. a * x) v"

text \<open>\<^verbatim>\<open>np.nan_to_num(sims, nan=-1.0)\<close>: there is no NaN among the reals.\<close>

definition nan_to_num :: "real list \<Rightarrow> real list" where
  "nan_to_num sims = sims"

text \<open>\<^verbatim>\<open>np.argmax\<close>: the first index of the largest entry; an empty array is an error.\<close>

fun argmax_from :: "'a::linorder list \<Rightarrow> nat \<Rightarrow> nat \<Rightarrow> 'a \<Rightarrow> nat" where
  "argmax_from [] i bi bv = bi"
| "argmax_from (x # xs) i bi bv =
     (if bv < x then argmax_from xs (Suc i) i x else argmax_from xs (Suc i) bi bv)"

definition argmax :: "'a::linorder list \<Rightarrow> error + nat" where
  "argmax xs = (case xs of [] \<Rightarrow> Inl ValueError | x # rest \<Rightarrow> Inr (argmax_from rest 1 0 x))"

section \<open>Person index\<close>

text \<open>
  A person is a dictionary of the registry file. The keys the code reads are fields here;
  a key can be absent (\<open>None\<close>, \<open>Missing\<close>), and \<^verbatim>\<open>ema\<close> and \<^verbatim>\<open>thr\<close> can also hold
  \<^verbatim>\<open>null\<close>. The values are taken to have the JSON types the code writes.
\<close>

datatype 'a field = Missing | Null | Val 'a

record person =
  number :: int
  protos :: "vec list option"
  proto :: "vec option"
  ema :: "vec field"
  count :: "int option"
  thr :: "real field"

text \<open>
  The registry file of a directory: absent, present but rejected by the JSON parser, or a
  parsed object, whose \<^verbatim>\<open>persons\<close> key may be absent. A directory also holds
  sub-directories; \<open>numbered_dirs\<close> are the values of those whose name is all digits.
  Writing a file and creating a directory are taken to succeed.
\<close>

datatype index_file = Absent | Unparsable | Document "person list option"

record disk =
  index :: index_file
  numbered_dirs :: "nat list"

definition get_protos :: "person \<Rightarrow> vec list" where
  "get_protos p = (case protos p of None \<Rightarrow> [] | Some ps \<Rightarrow> ps)"

text \<open>One round of the migration loop of \<^verbatim>\<open>load_person_index\<close>, with its \<^verbatim>\<open>changed\<close> flag.\<close>

definition migrate_protos :: "person \<Rightarrow> person \<times> bool" where
  "migrate_protos p =
     (if protos p = None then
        (case proto p of
           Some v \<Rightarrow> (p\<lparr>proto := None, protos := Some [v]\<rparr>, True)
         | None \<Rightarrow> (p\<lparr>protos := Some []\<rparr>, True))
      else (p, False))"

definition migrate_ema :: "person \<Rightarrow> person \<times> bool" where
  "migrate_ema p =
     (if ema p = Missing then
        (p\<lparr>ema := (case get_protos p of [] \<Rightarrow> Null | v # _ \<Rightarrow> Val v)\<rparr>, True)
      else (p, False))"

definition migrate_count :: "person \<Rightarrow> person \<times> bool" where
  "migrate_count p =
     (if count p = None then (p\<lparr>count := Some (max 1 (int (length (get_protos p))))\<rparr>, True)
      else (p, False))"

definition migrate_thr :: "person \<Rightarrow> person \<times> bool" where
  "migrate_thr p = (if thr p = Missing then (p\<lparr>thr := Null\<rparr>, True) else (p, False))"

definition migrate :: "person \<Rightarrow> person \<times> bool" where
  "migrate p =
     (let (p1, c1) = migrate_protos p;
          (p2, c2) = migrate_ema p1;
          (p3, c3) = migrate_count p2;
          (p4, c4) = migrate_thr p3
      in (p4, c1 \<or> c2 \<or> c3 \<or> c4))"

definition load_person_index :: "disk \<Rightarrow> person list \<times> disk" where
  "load_person_index d =
     (case index d of
        Unparsable \<Rightarrow> ([], d)
      | _ \<Rightarrow>
        (let persons0 = (case index d of Document (Some ps) \<Rightarrow> ps | _ \<Rightarrow> []);
             migrated = map migrate persons0;
             persons = map fst migrated;
             changed = list_ex snd migrated
         in (persons, if changed then d\<lparr>index := Document (Some persons)\<rparr> else d)))"

definition save_person_index :: "disk \<Rightarrow> person list \<Rightarrow> disk" where
  "save_person_index d persons = d\<lparr>index := Document (Some persons)\<rparr>"

definition ensure_dir :: "int \<Rightarrow> disk \<Rightarrow> disk" where
  "ensure_dir num d =
     (if 0 \<le> num \<and> nat num \<notin> set (numbered_dirs d)
      then d\<lparr>numbered_dirs := numbered_dirs d @ [nat num]\<rparr> else d)"

section \<open>Prototype update\<close>

definition col_mean :: "vec list \<Rightarrow> vec" where
  "col_mean X =
     (case X of
        [] \<Rightarrow> []
      | r # _ \<Rightarrow> map (\<lambda>j. sum_list (map (\<lambda>row. row ! j) X) / real (length X)) [0..<length r])"

definition vsub :: "vec \<Rightarrow> vec \<Rightarrow> vec" where
  "vsub a b = map2 (-) a b"

text \<open>
  The \<^verbatim>\<open>while\<close> loop of the farthest-point selection. \<open>X\<close> is the stacked matrix, \<open>keep\<close>
  the indices chosen so far. A masked distance (\<^verbatim>\<open>-inf\<close> in the source) is \<open>None\<close>, which
  is below every \<open>Some\<close>.
\<close>

definition masked_dists :: "vec list \<Rightarrow> nat list \<Rightarrow> real option list" where
  "masked_dists X keep =
     (let sims = map (\<lambda>r. map (\<lambda>i. dot r (X ! i)) keep) X;
          dists = map (\<lambda>row. Some (1 - Max (set row))) sims
      in fold (\<lambda>idx ds. ds[idx := None]) keep dists)"

function greedy :: "int \<Rightarrow> vec list \<Rightarrow> nat list \<Rightarrow> error + nat list" where
  "greedy k_max X keep =
     (if int (length keep) < k_max \<and> length keep < length X then
        (if \<not> list_all (\<lambda>i. i < length X) keep then Inl IndexError
         else if keep = [] then Inl ValueError
         else
           (case argmax (masked_dists X keep) of
              Inl e \<Rightarrow> Inl e
            | Inr cand \<Rightarrow>
                if masked_dists X keep ! cand = None then Inr keep
                else greedy k_max X (keep @ [cand])))
      else Inr keep)"
  by pat_completeness auto
termination
  by (relation "measure (\<lambda>(k_max, X, keep). length X - length keep)") auto

text \<open>The fallback \<^verbatim>\<open>for i in range(len(X))\<close> loop, entered with \<open>target = min(k_max, len(X))\<close>.\<close>

fun fill :: "int \<Rightarrow> nat list \<Rightarrow> nat list \<Rightarrow> nat list" where
  "fill target [] keep = keep"
| "fill target (i # rest) keep =
     (let keep' = (if i \<notin> set keep then keep @ [i] else keep)
      in if target \<le> int (length keep') then keep' else fill target rest keep')"

text \<open>The body of \<^verbatim>\<open>if len(protos) > k_max\<close>: the kept indices, then the kept rows.\<close>

definition select_keep :: "int \<Rightarrow> vec list \<Rightarrow> error + nat list" where
  "select_keep k_max X =
     (let mean = col_mean X;
          d0 = map (\<lambda>r. l2norm (vsub r mean)) X
      in case argmax d0 of
           Inl e \<Rightarrow> Inl e
         | Inr a \<Rightarrow>
            (case greedy k_max X [a] of
               Inl e \<Rightarrow> Inl e
             | Inr keep \<Rightarrow>
                 let target = min k_max (int (length X))
                 in Inr (if int (length keep) < target then fill target [0..<length X] keep
                         else keep)))"

definition trim_protos :: "int \<Rightarrow> vec list \<Rightarrow> error + vec list" where
  "trim_protos k_max ps =
     (case np_stack (map normalize_vec ps) of
        Inl e \<Rightarrow> Inl e
      | Inr X \<Rightarrow>
         (case select_keep k_max X of
            Inl e \<Rightarrow> Inl e
          | Inr keep \<Rightarrow> Inr (map (\<lambda>i. X ! i) keep)))"

text \<open>
  \<^verbatim>\<open>_update_person_proto(person, new_vec, k_max, ema_alpha)\<close>; \<open>new_vec\<close> is an array here,
  as at its one call site.
\<close>

definition update_person_proto :: "person \<Rightarrow> vec \<Rightarrow> int \<Rightarrow> real \<Rightarrow> error + person" where
  "update_person_proto p new_vec k_max ema_alpha =
     (let nv = normalize_vec new_vec;
          appended = get_protos p @ [nv]
      in case (if k_max < int (length appended) then trim_protos k_max appended else Inr appended) of
           Inl e \<Rightarrow> Inl e
         | Inr ps \<Rightarrow>
            (case (case ema p of Val e \<Rightarrow> Inr e
                   | _ \<Rightarrow> (case ps of [] \<Rightarrow> Inl IndexError | v # _ \<Rightarrow> Inr v)) of
               Inl e \<Rightarrow> Inl e
             | Inr seed \<Rightarrow>
                (case np_add (scale ema_alpha (normalize_vec seed))
                             (scale (1 - ema_alpha) (normalize_vec new_vec)) of
                   Inl e \<Rightarrow> Inl e
                 | Inr blended \<Rightarrow>
                     Inr (p\<lparr>protos := Some ps,
                            ema := Val (normalize_vec blended),
                            count := Some ((case count p of None \<Rightarrow> 0 | Some n \<Rightarrow> n) + 1)\<rparr>))))"

section \<open>Matching and application\<close>

text \<open>
  The plan of the cluster planner, as far as the matcher's decisions read it: the raw
  centroid of each cluster and the eligible cluster ids, in their given order. Cluster ids
  are integers, on which both id conversions of the source are the identity. The image
  lists only drive file copies, which are outside the model.
\<close>

record plan =
  cluster_centroids :: "(int \<times> raw) list"
  eligible_clusters :: "int list"

text \<open>The first loop: every centroid is normalised, and a conversion error is not caught.\<close>

fun norm_centroids :: "(int \<times> raw) list \<Rightarrow> (int \<times> vec) list \<Rightarrow> error + (int \<times> vec) list" where
  "norm_centroids [] acc = Inr acc"
| "norm_centroids ((cid, v) # rest) acc =
     (case normalize_np v of
        Inl e \<Rightarrow> Inl e
      | Inr c \<Rightarrow> norm_centroids rest (AList.update cid c acc))"

text \<open>The second loop: the prototype rows with their owners, and the custom thresholds.\<close>

definition person_protos :: "person \<Rightarrow> vec list" where
  "person_protos p =
     (case (get_protos p, ema p) of
        ([], Val (x # xs)) \<Rightarrow> [x # xs]
      | (ps, _) \<Rightarrow> ps)"

definition proto_rows :: "person list \<Rightarrow> (vec \<times> int) list" where
  "proto_rows persons =
     concat (map (\<lambda>p. map (\<lambda>v. (normalize_vec v, number p)) (person_protos p)) persons)"

definition per_thr_of :: "person list \<Rightarrow> (int \<times> real) list" where
  "per_thr_of persons =
     fold (\<lambda>p m. case thr p of Val t \<Rightarrow> AList.update (number p) t m | _ \<Rightarrow> m) persons []"

definition cur_max_of :: "disk \<Rightarrow> int" where
  "cur_max_of d =
     (let existing_nums = sort (numbered_dirs d)
      in if existing_nums = [] then 0 else int (last existing_nums))"

text \<open>The best score of each owner, as the insertion-ordered dictionary of the source.\<close>

definition score_step :: "real \<times> int \<Rightarrow> (int \<times> real) list \<Rightarrow> (int \<times> real) list" where
  "score_step so d =
     (case map_of d (snd so) of
        None \<Rightarrow> AList.update (snd so) (fst so) d
      | Some old \<Rightarrow> if old < fst so then AList.update (snd so) (fst so) d else d)"

definition per_person_scores :: "real list \<Rightarrow> int list \<Rightarrow> (int \<times> real) list" where
  "per_person_scores sims proto_owner = fold score_step (zip sims proto_owner) []"

text \<open>
  \<^verbatim>\<open>sorted(items, key=score, reverse=True)\<close> is a stable sort into descending order: equal
  scores keep their order.
\<close>

definition sorted_pairs_of :: "(int \<times> real) list \<Rightarrow> (int \<times> real) list" where
  "sorted_pairs_of items = sort_key (\<lambda>x. - snd x) items"

definition top2 :: "(int \<times> real) list \<Rightarrow> int option \<times> real \<times> real" where
  "top2 scores =
     (case sorted_pairs_of scores of
        [] \<Rightarrow> (None, - 1, - 1)
      | [(b, s)] \<Rightarrow> (Some b, s, - 1)
      | (b, s) # (_, s') # _ \<Rightarrow> (Some b, s, s'))"

definition thr_use_of :: "(int \<times> real) list \<Rightarrow> real \<Rightarrow> int option \<Rightarrow> real" where
  "thr_use_of per_thr match_thr best_num =
     (case best_num of
        None \<Rightarrow> match_thr
      | Some b \<Rightarrow> max match_thr (case map_of per_thr b of None \<Rightarrow> - (10 ^ 9) | Some t \<Rightarrow> t))"

text \<open>
  The decision for one centroid against a non-empty matrix \<open>P\<close>: the number of the person
  to assign, or \<open>None\<close> for a new person.
\<close>

definition decide :: "vec list \<Rightarrow> int list \<Rightarrow> (int \<times> real) list \<Rightarrow> real \<Rightarrow> real \<Rightarrow> vec \<Rightarrow> error + int option" where
  "decide P proto_owner per_thr match_thr top2_margin c =
     (case matvec P c of
        Inl e \<Rightarrow> Inl e
      | Inr sims \<Rightarrow>
         (let (best_num, s1, s2) = top2 (per_person_scores (nan_to_num sims) proto_owner);
              thr_use = thr_use_of per_thr match_thr best_num
          in Inr (if best_num \<noteq> None \<and> thr_use \<le> s1 \<and> top2_margin \<le> s1 - s2 then best_num
                  else None)))"

text \<open>\<^verbatim>\<open>for p in persons: if p.number == best_num: update(p, c); break\<close>\<close>

fun update_first :: "person list \<Rightarrow> int \<Rightarrow> vec \<Rightarrow> error + person list" where
  "update_first [] best_num c = Inr []"
| "update_first (p # ps) best_num c =
     (if number p = best_num then
        (case update_person_proto p c 5 (9 / 10) of
           Inl e \<Rightarrow> Inl e
         | Inr p' \<Rightarrow> Inr (p' # ps))
      else (case update_first ps best_num c of
              Inl e \<Rightarrow> Inl e
            | Inr ps' \<Rightarrow> Inr (p # ps')))"

definition new_person :: "int \<Rightarrow> vec \<Rightarrow> person" where
  "new_person num c =
     \<lparr>number = num, protos = Some [c], proto = None, ema = Val c, count = Some 1, thr = Null\<rparr>"

record mstate =
  persons :: "person list"
  assigned :: "(int \<times> int) list"
  new_nums :: "(int \<times> int) list"
  cur_max :: int

definition mint :: "int \<Rightarrow> vec \<Rightarrow> mstate \<Rightarrow> mstate" where
  "mint cid c st =
     st\<lparr>cur_max := cur_max st + 1,
        new_nums := AList.update cid (cur_max st + 1) (new_nums st),
        persons := persons st @ [new_person (cur_max st + 1) c]\<rparr>"

text \<open>
  The matrix \<^verbatim>\<open>P\<close>, the owners and the thresholds are built once, before the loop over the
  eligible clusters, and are not rebuilt inside it.
\<close>

record matcher =
  centroids_norm :: "(int \<times> vec) list"
  proto_matrix :: "vec list option"
  owners :: "int list"
  thresholds :: "(int \<times> real) list"
  global_thr :: real
  margin :: real

definition match_step :: "matcher \<Rightarrow> int \<Rightarrow> mstate \<Rightarrow> error + mstate" where
  "match_step m cid st =
     (case map_of (centroids_norm m) cid of
        None \<Rightarrow> Inr st
      | Some c \<Rightarrow>
         (case proto_matrix m of
            Some (r # rs) \<Rightarrow>
              (case decide (r # rs) (owners m) (thresholds m) (global_thr m) (margin m) c of
                 Inl e \<Rightarrow> Inl e
               | Inr (Some best_num) \<Rightarrow>
                  (case update_first (persons st) best_num c of
                     Inl e \<Rightarrow> Inl e
                   | Inr ps \<Rightarrow>
                       Inr (st\<lparr>assigned := AList.update cid best_num (assigned st),
                               persons := ps\<rparr>))
               | Inr None \<Rightarrow> Inr (mint cid c st))
          | _ \<Rightarrow> Inr (mint cid c st)))"

fun match_loop :: "matcher \<Rightarrow> int list \<Rightarrow> mstate \<Rightarrow> error + mstate" where
  "match_loop m [] st = Inr st"
| "match_loop m (cid # rest) st =
     (case match_step m cid st of
        Inl e \<Rightarrow> Inl e
      | Inr st' \<Rightarrow> match_loop m rest st')"

text \<open>
  What an invocation that returns has decided: the two dictionaries, the registry it
  saved, and the count it returns. An exception leaves the disk as \<^verbatim>\<open>load_person_index\<close>
  left it: the directories and the registry are written after the loop.
\<close>

record outcome =
  persons_count :: nat
  out_assigned :: "(int \<times> int) list"
  out_new_nums :: "(int \<times> int) list"
  out_persons :: "person list"

definition merged_nums :: "mstate \<Rightarrow> int list" where
  "merged_nums st = map snd (fold (\<lambda>(k, v). AList.update k v) (new_nums st) (assigned st))"

definition match_and_apply :: "disk \<Rightarrow> plan \<Rightarrow> real \<Rightarrow> real \<Rightarrow> (error + outcome) \<times> disk" where
  "match_and_apply d pl match_thr top2_margin =
     (let (persons0, d1) = load_person_index d
      in case norm_centroids (cluster_centroids pl) [] of
           Inl e \<Rightarrow> (Inl e, d1)
         | Inr cn \<Rightarrow>
            (let rows = proto_rows persons0
             in case (if rows = [] then Inr None
                      else (case np_stack (map fst rows) of
                              Inl e \<Rightarrow> Inl e
                            | Inr X \<Rightarrow> Inr (Some X))) of
                  Inl e \<Rightarrow> (Inl e, d1)
                | Inr Pm \<Rightarrow>
                   (let m = \<lparr>centroids_norm = cn, proto_matrix = Pm, owners = map snd rows,
                             thresholds = per_thr_of persons0, global_thr = match_thr,
                             margin = top2_margin\<rparr>;
                        st0 = \<lparr>persons = persons0, assigned = [], new_nums = [],
                               cur_max = cur_max_of d1\<rparr>
                    in case match_loop m (eligible_clusters pl) st0 of
                         Inl e \<Rightarrow> (Inl e, d1)
                       | Inr st \<Rightarrow>
                          (let d2 = fold ensure_dir (merged_nums st) d1;
                               d3 = save_person_index d2 (persons st)
                           in (Inr \<lparr>persons_count = length (persons st),
                                     out_assigned = assigned st,
                                     out_new_nums = new_nums st,
                                     out_persons = persons st\<rparr>, d3)))))"

section \<open>Notions used in the statements\<close>

text \<open>A sequence of \<^verbatim>\<open>_update_person_proto\<close> calls on one record, stopping at an exception.\<close>

fun update_seq :: "person \<Rightarrow> vec list \<Rightarrow> int \<Rightarrow> real \<Rightarrow> error + person" where
  "update_seq p [] k_max ema_alpha = Inr p"
| "update_seq p (v # vs) k_max ema_alpha =
     (case update_person_proto p v k_max ema_alpha of
        Inl e \<Rightarrow> Inl e
      | Inr p' \<Rightarrow> update_seq p' vs k_max ema_alpha)"

text \<open>The indices kept by the selection: not empty, without repetition, and within the matrix.\<close>

definition keep_ok :: "vec list \<Rightarrow> nat list \<Rightarrow> bool" where
  "keep_ok X keep \<longleftrightarrow> keep \<noteq> [] \<and> distinct keep \<and> (\<forall>i\<in>set keep. i < length X)"

text \<open>Well-formed vectors: the prototypes and the running average of a record have one length.\<close>

definition dim_ok :: "nat \<Rightarrow> person \<Rightarrow> bool" where
  "dim_ok d p \<longleftrightarrow> (\<forall>v\<in>set (get_protos p). length v = d) \<and> (\<forall>e. ema p = Val e \<longrightarrow> length e = d)"

text \<open>The elementwise sum of two arrays of one length.\<close>

definition vadd :: "vec \<Rightarrow> vec \<Rightarrow> vec" where
  "vadd a b = map2 (+) a b"

text \<open>The decision of one loop round for a centroid that is present.\<close>

definition verdict :: "matcher \<Rightarrow> vec \<Rightarrow> error + int option" where
  "verdict m c =
     (case proto_matrix m of
        Some (r # rs) \<Rightarrow> decide (r # rs) (owners m) (thresholds m) (global_thr m) (margin m) c
      | _ \<Rightarrow> Inr None)"

text \<open>The matrix \<^verbatim>\<open>P\<close> of an invocation: \<open>None\<close> when there is no prototype row.\<close>

definition stack_of :: "person list \<Rightarrow> error + vec list option" where
  "stack_of persons0 =
     (if proto_rows persons0 = [] then Inr None
      else (case np_stack (map fst (proto_rows persons0)) of
              Inl e \<Rightarrow> Inl e
            | Inr X \<Rightarrow> Inr (Some X)))"

text \<open>The values that \<^verbatim>\<open>match_and_apply\<close> fixes before its loop.\<close>

definition matcher_for :: "person list \<Rightarrow> (int \<times> vec) list \<Rightarrow> vec list option \<Rightarrow> real \<Rightarrow> real \<Rightarrow> matcher" where
  "matcher_for persons0 cn Pm T M =
     \<lparr>centroids_norm = cn, proto_matrix = Pm, owners = map snd (proto_rows persons0),
      thresholds = per_thr_of persons0, global_thr = T, margin = M\<rparr>"

text \<open>The state in which the loop starts.\<close>

definition initial_state :: "disk \<Rightarrow> mstate" where
  "initial_state d =
     \<lparr>persons = fst (load_person_index d), assigned = [], new_nums = [],
      cur_max = cur_max_of (snd (load_person_index d))\<rparr>"

text \<open>What is returned from the final state, and the disk that is left.\<close>

definition outcome_of :: "mstate \<Rightarrow> outcome" where
  "outcome_of st =
     \<lparr>persons_count = length (persons st), out_assigned = assigned st,
      out_new_nums = new_nums st, out_persons = persons st\<rparr>"

definition disk_after :: "disk \<Rightarrow> mstate \<Rightarrow> disk" where
  "disk_after d st =
     save_person_index (fold ensure_dir (merged_nums st) (snd (load_person_index d))) (persons st)"

text \<open>New persons numbered consecutively after \<open>n\<close>, one per centroid.\<close>

fun fresh_persons :: "int \<Rightarrow> vec list \<Rightarrow> person list" where
  "fresh_persons n [] = []"
| "fresh_persons n (c # cs) = new_person (n + 1) c # fresh_persons (n + 1) cs"

text \<open>The best score of a record is the largest similarity over its prototype rows; the
  runner-up is the best score among the other records, or the sentinel \<open>-1\<close>.\<close>

definition record_scores :: "(vec \<times> int) list \<Rightarrow> vec \<Rightarrow> int \<Rightarrow> real list" where
  "record_scores rows c num = map (\<lambda>r. dot (fst r) c) (filter (\<lambda>r. snd r = num) rows)"

definition record_score :: "(vec \<times> int) list \<Rightarrow> vec \<Rightarrow> int \<Rightarrow> real" where
  "record_score rows c num = Max (set (record_scores rows c num))"

definition runner_up :: "(vec \<times> int) list \<Rightarrow> vec \<Rightarrow> int \<Rightarrow> real" where
  "runner_up rows c best =
     (let others = filter (\<lambda>n. n \<noteq> best) (map snd rows)
      in if others = [] then - 1 else Max (set (map (record_score rows c) others)))"

text \<open>The custom threshold of the record with a given number, when it has one.\<close>

definition custom_threshold :: "person list \<Rightarrow> int \<Rightarrow> real option" where
  "custom_threshold ps num =
     (case find (\<lambda>p. number p = num) ps of
        None \<Rightarrow> None
      | Some p \<Rightarrow> (case thr p of Val t \<Rightarrow> Some t | _ \<Rightarrow> None))"

text \<open>The running maximum kept per owner.\<close>

definition opt_max :: "real \<Rightarrow> real option \<Rightarrow> real option" where
  "opt_max s a = (case a of None \<Rightarrow> Some s | Some x \<Rightarrow> Some (max x s))"

text \<open>A registry of two persons with opposite prototypes, for the examples.\<close>

definition two_persons :: "person list" where
  "two_persons =
     [\<lparr>number = 1, protos = Some [[1]], proto = None, ema = Val [1], count = Some 1, thr = Null\<rparr>,
      \<lparr>number = 2, protos = Some [[- 1]], proto = None, ema = Val [- 1], count = Some 1, thr = Null\<rparr>]"

text \<open>A record that carries every key the migration looks for.\<close>

definition complete :: "person \<Rightarrow> bool" where
  "complete p \<longleftrightarrow> protos p \<noteq> None \<and> ema p \<noteq> Missing \<and> count p \<noteq> None \<and> thr p \<noteq> Missing"

text \<open>The numbers minted by one invocation (none when it raises), and by a sequence of
  invocations on one directory, each starting from the disk the previous one left.\<close>

definition minted_of :: "disk \<Rightarrow> plan \<Rightarrow> real \<Rightarrow> real \<Rightarrow> int list" where
  "minted_of d pl T M =
     (case fst (match_and_apply d pl T M) of
        Inl e \<Rightarrow> []
      | Inr out \<Rightarrow> map number (drop (length (fst (load_person_index d))) (out_persons out)))"

fun minted_seq :: "disk \<Rightarrow> (plan \<times> real \<times> real) list \<Rightarrow> int list" where
  "minted_seq d [] = []"
| "minted_seq d ((pl, T, M) # rest) =
     minted_of d pl T M @ minted_seq (snd (match_and_apply d pl T M)) rest"



text \<open>Two plans and an empty directory, for the examples.\<close>

definition first_run :: "plan" where
  "first_run = \<lparr>cluster_centroids = [(1, Floats [1])], eligible_clusters = [1]\<rparr>"

definition second_run :: "plan" where
  "second_run = \<lparr>cluster_centroids = [(1, Floats [1]), (2, Floats [- 1])], eligible_clusters = [1, 2]\<rparr>"

definition empty_disk :: disk where
  "empty_disk = \<lparr>index = Absent, numbered_dirs = []\<rparr>"

text \<open>The disk that \<open>first_run\<close> leaves in the empty directory.\<close>

definition warm_disk :: disk where
  "warm_disk = \<lparr>index = Document (Some [new_person 1 (normalize_vec [1])]), numbered_dirs = [1]\<rparr>"


section \<open>Properties of the vector math\<close>

lemma eps_pos: "0 < eps"
  by (simp add: eps_def)

lemma sum_sq_nonneg: "0 \<le> sum_list (map (\<lambda>x. x * x) (v::vec))"
  by (induction v) auto

lemma l2norm_nonneg: "0 \<le> l2norm v"
  by (simp add: l2norm_def sum_sq_nonneg)





lemma l2norm_single: "l2norm [a] = \<bar>a\<bar>"
  by (simp add: l2norm_def)




section \<open>Properties of the prototype selection\<close>

lemma argmax_from_bound: "bi < i \<Longrightarrow> argmax_from xs i bi bv < i + length xs"
proof (induction xs arbitrary: i bi bv)
  case Nil
  then show ?case by simp
next
  case (Cons x xs)
  have a: "argmax_from xs (Suc i) i x < Suc i + length xs"
    by (rule Cons.IH) simp
  have b: "argmax_from xs (Suc i) bi bv < Suc i + length xs"
    by (rule Cons.IH) (use Cons.prems in simp)
  show ?case using a b by simp
qed

lemma argmax_bound: "argmax xs = Inr a \<Longrightarrow> a < length xs"
  using argmax_from_bound [of 0 1 "tl xs" "hd xs"]
  by (auto simp: argmax_def split: list.splits)

lemma argmax_total: "xs \<noteq> [] \<Longrightarrow> \<exists>a. argmax xs = Inr a"
  by (auto simp: argmax_def split: list.splits)

lemma length_mask: "length (fold (\<lambda>idx ds. ds[idx := v]) keep ds) = length ds"
  by (induction keep arbitrary: ds) auto

lemma nth_mask:
  "i < length ds \<Longrightarrow>
   fold (\<lambda>idx ds. ds[idx := v]) keep ds ! i = (if i \<in> set keep then v else ds ! i)"
  by (induction keep arbitrary: ds) (auto simp: length_mask nth_list_update)

lemma length_masked_dists: "length (masked_dists X keep) = length X"
  by (simp add: masked_dists_def Let_def length_mask)

lemma masked_dists_kept: "i \<in> set keep \<Longrightarrow> i < length X \<Longrightarrow> masked_dists X keep ! i = None"
  by (simp add: masked_dists_def Let_def nth_mask)

lemma greedy_ok:
  "keep_ok X keep \<Longrightarrow>
   \<exists>keep'. greedy k X keep = Inr keep' \<and> keep_ok X keep' \<and>
      length keep' \<le> max (length keep) (nat (min k (int (length X))))"
proof (induction k X keep rule: greedy.induct)
  case (1 k X keep)
  show ?case
  proof (cases "int (length keep) < k \<and> length keep < length X")
    case False
    then show ?thesis using "1.prems" by (subst greedy.simps) auto
  next
    case True
    have inr: "list_all (\<lambda>i. i < length X) keep" and ne: "keep \<noteq> []"
      using "1.prems" by (auto simp: keep_ok_def list_all_iff)
    have "masked_dists X keep \<noteq> []"
      using True length_masked_dists [of X keep] by auto
    then obtain cand where cand: "argmax (masked_dists X keep) = Inr cand"
      using argmax_total by blast
    then have cb: "cand < length X"
      using argmax_bound [OF cand] by (simp add: length_masked_dists)
    show ?thesis
    proof (cases "masked_dists X keep ! cand = None")
      case True
      with \<open>int (length keep) < k \<and> length keep < length X\<close> inr ne cand "1.prems"
      show ?thesis by (subst greedy.simps) auto
    next
      case False
      then have "cand \<notin> set keep"
        using masked_dists_kept [of cand keep X] cb by auto
      then have ok': "keep_ok X (keep @ [cand])"
        using "1.prems" cb by (auto simp: keep_ok_def)
      from "1.IH" [OF True _ _ cand False ok'] inr ne
      obtain keep' where k': "greedy k X (keep @ [cand]) = Inr keep'" "keep_ok X keep'"
        "length keep' \<le> max (length (keep @ [cand])) (nat (min k (int (length X))))"
        by auto
      have "greedy k X keep = greedy k X (keep @ [cand])"
        using True inr ne cand False by (subst greedy.simps) auto
      moreover have "max (length (keep @ [cand])) (nat (min k (int (length X))))
           \<le> max (length keep) (nat (min k (int (length X))))"
        using True by auto
      ultimately show ?thesis using k' by auto
    qed
  qed
qed


lemma fill_exact:
  "distinct cands \<Longrightarrow> distinct keep \<Longrightarrow> int (length keep) < target \<Longrightarrow>
   target \<le> int (length keep) + int (card (set cands - set keep)) \<Longrightarrow>
   int (length (fill target cands keep)) = target \<and> distinct (fill target cands keep) \<and>
   set (fill target cands keep) \<subseteq> set keep \<union> set cands"
proof (induction cands arbitrary: keep)
  case Nil
  then show ?case by simp
next
  case (Cons i rest)
  show ?case
  proof (cases "i \<in> set keep")
    case True
    then have "set (i # rest) - set keep = set rest - set keep" by auto
    with Cons.prems have "target \<le> int (length keep) + int (card (set rest - set keep))"
      by simp
    with Cons.IH [of keep] Cons.prems True show ?thesis by auto
  next
    case False
    let ?keep' = "keep @ [i]"
    show ?thesis
    proof (cases "target \<le> int (length ?keep')")
      case True
      with False Cons.prems show ?thesis by auto
    next
      case big: False
      have "i \<notin> set rest" using Cons.prems by simp
      then have "set (i # rest) - set keep = insert i (set rest - set ?keep')"
        and "i \<notin> set rest - set ?keep'" and "set rest - set ?keep' = set rest - set keep"
        using False by auto
      then have "card (set (i # rest) - set keep) = Suc (card (set rest - set ?keep'))"
        by (metis List.finite_set card_insert_disjoint finite_Diff)
      with Cons.prems have "target \<le> int (length ?keep') + int (card (set rest - set ?keep'))"
        by simp
      moreover have "distinct ?keep'" "distinct rest" "int (length ?keep') < target"
        using False Cons.prems big by auto
      ultimately have "int (length (fill target rest ?keep')) = target \<and>
          distinct (fill target rest ?keep') \<and>
          set (fill target rest ?keep') \<subseteq> set ?keep' \<union> set rest"
        by (intro Cons.IH)
      with False big show ?thesis by auto
    qed
  qed
qed

lemma select_keep_exact:
  assumes "X \<noteq> []" and "1 \<le> k"
  shows "\<exists>keep. select_keep k X = Inr keep \<and> int (length keep) = min k (int (length X)) \<and>
           distinct keep \<and> (\<forall>i\<in>set keep. i < length X)"
proof -
  let ?d0 = "map (\<lambda>r. l2norm (vsub r (col_mean X))) X"
  obtain a where a: "argmax ?d0 = Inr a"
    using argmax_total [of ?d0] assms by auto
  then have "a < length X" using argmax_bound [OF a] by simp
  then have "keep_ok X [a]" by (simp add: keep_ok_def)
  from greedy_ok [OF this, of k] obtain keep where
    g: "greedy k X [a] = Inr keep" and ok: "keep_ok X keep"
    and len: "length keep \<le> max (length [a]) (nat (min k (int (length X))))"
    by blast
  let ?target = "min k (int (length X))"
  have t1: "1 \<le> ?target" using assms by (cases X) auto
  with len have le: "int (length keep) \<le> ?target" by auto
  have sk: "select_keep k X =
      Inr (if int (length keep) < ?target then fill ?target [0..<length X] keep else keep)"
    using a g by (simp add: select_keep_def Let_def)
  show ?thesis
  proof (cases "int (length keep) < ?target")
    case False
    with le sk ok show ?thesis by (auto simp: keep_ok_def)
  next
    case True
    have sub: "set keep \<subseteq> {0..<length X}" using ok by (auto simp: keep_ok_def)
    have dk: "distinct keep" using ok by (simp add: keep_ok_def)
    have "card (set [0..<length X] - set keep) = length X - length keep"
      using sub dk by (simp add: card_Diff_subset distinct_card)
    moreover have "length keep \<le> length X"
      using sub dk by (metis atLeastLessThan_upt card_atLeastLessThan card_mono
          diff_zero distinct_card finite_atLeastLessThan)
    ultimately have "?target \<le> int (length keep) + int (card (set [0..<length X] - set keep))"
      by auto
    from fill_exact [OF _ dk True this]
    have f: "int (length (fill ?target [0..<length X] keep)) = ?target"
      "distinct (fill ?target [0..<length X] keep)"
      "set (fill ?target [0..<length X] keep) \<subseteq> set keep \<union> set [0..<length X]"
      by auto
    from f(3) sub have "\<forall>i\<in>set (fill ?target [0..<length X] keep). i < length X"
      by fastforce
    with f sk True show ?thesis by simp
  qed
qed


lemma length_normalize_vec: "length (normalize_vec v) = length v"
  by (simp add: normalize_vec_def Let_def)

lemma np_stack_Inr: "np_stack rows = Inr X \<Longrightarrow> X = rows \<and> rows \<noteq> []"
  by (auto simp: np_stack_def split: list.splits if_splits)

lemma np_stack_uniform: "rows \<noteq> [] \<Longrightarrow> \<forall>r\<in>set rows. length r = d \<Longrightarrow> np_stack rows = Inr rows"
  by (cases rows) (auto simp: np_stack_def list_all_iff)

lemma trim_protos_exact:
  assumes "trim_protos k ps = Inr kept" and "1 \<le> k"
  shows "int (length kept) = min k (int (length ps)) \<and> set kept \<subseteq> normalize_vec ` set ps"
proof -
  from assms(1) obtain X where X: "np_stack (map normalize_vec ps) = Inr X"
    by (auto simp: trim_protos_def split: sum.splits)
  then have XX: "X = map normalize_vec ps" "X \<noteq> []"
    using np_stack_Inr [OF X] by auto
  from select_keep_exact [OF XX(2) assms(2)] obtain keep where
    keep: "select_keep k X = Inr keep" "int (length keep) = min k (int (length X))"
      "\<forall>i\<in>set keep. i < length X"
    by blast
  have "kept = map (\<lambda>i. X ! i) keep"
    using assms(1) X keep(1) by (simp add: trim_protos_def)
  then show ?thesis
    using keep XX by (auto simp: nth_mem)
qed

lemma trim_protos_total:
  assumes "ps \<noteq> []" and "\<forall>v\<in>set ps. length v = d" and "1 \<le> k"
  shows "\<exists>kept. trim_protos k ps = Inr kept"
proof -
  have "np_stack (map normalize_vec ps) = Inr (map normalize_vec ps)"
    using assms by (intro np_stack_uniform [where d = d]) (auto simp: length_normalize_vec)
  moreover obtain keep where "select_keep k (map normalize_vec ps) = Inr keep"
    using select_keep_exact [of "map normalize_vec ps" k] assms by auto
  ultimately show ?thesis by (simp add: trim_protos_def)
qed

lemma np_add_same: "length a = length b \<Longrightarrow> np_add a b = Inr (vadd a b)"
  by (simp add: np_add_def vadd_def)

lemma update_person_proto_protos:
  assumes "update_person_proto p v k a = Inr p'"
  shows "get_protos p' =
     (if k < int (length (get_protos p)) + 1 then projr (trim_protos k (get_protos p @ [normalize_vec v]))
      else get_protos p @ [normalize_vec v])"
    and "k < int (length (get_protos p)) + 1 \<Longrightarrow> \<exists>kept. trim_protos k (get_protos p @ [normalize_vec v]) = Inr kept"
  using assms
  by (auto simp: update_person_proto_def Let_def get_protos_def split: sum.splits if_splits)

lemma update_person_proto_bound:
  assumes "update_person_proto p v k a = Inr p'" and "1 \<le> k"
  shows "int (length (get_protos p')) \<le> k"
proof (cases "k < int (length (get_protos p)) + 1")
  case True
  with update_person_proto_protos [OF assms(1)] obtain kept where
    "trim_protos k (get_protos p @ [normalize_vec v]) = Inr kept" "get_protos p' = kept"
    by auto
  with trim_protos_exact [OF _ assms(2)] show ?thesis by fastforce
next
  case False
  with update_person_proto_protos(1) [OF assms(1)] show ?thesis by simp
qed


lemma length_scale: "length (scale a v) = length v"
  by (simp add: scale_def)

lemma update_person_proto_result:
  assumes "dim_ok d p" and "length v = d" and "1 \<le> k"
  shows "\<exists>p'. update_person_proto p v k a = Inr p' \<and> dim_ok d p' \<and> get_protos p' \<noteq> [] \<and>
           ema p' = Val (normalize_vec (vadd
              (scale a (normalize_vec (case ema p of Val e \<Rightarrow> e | _ \<Rightarrow> hd (get_protos p'))))
              (scale (1 - a) (normalize_vec v)))) \<and>
           count p' = Some ((case count p of None \<Rightarrow> 0 | Some n \<Rightarrow> n) + 1) \<and>
           number p' = number p \<and> thr p' = thr p"
proof -
  let ?app = "get_protos p @ [normalize_vec v]"
  have app_d: "\<forall>x\<in>set ?app. length x = d"
    using assms by (auto simp: dim_ok_def length_normalize_vec)
  obtain ps where ps: "(if k < int (length ?app) then trim_protos k ?app else Inr ?app) = Inr ps"
    and ps_d: "\<forall>x\<in>set ps. length x = d" and ps_ne: "ps \<noteq> []"
  proof (cases "k < int (length ?app)")
    case False
    with app_d that [of ?app] show ?thesis by auto
  next
    case True
    obtain kept where kept: "trim_protos k ?app = Inr kept"
      using trim_protos_total [OF _ app_d assms(3)] by auto
    from trim_protos_exact [OF kept assms(3)]
    have len: "int (length kept) = min k (int (length ?app))"
      and sub: "set kept \<subseteq> normalize_vec ` set ?app"
      by blast+
    have "1 \<le> int (length kept)"
      unfolding len using assms(3) by simp
    then have ne: "kept \<noteq> []" by auto
    have "\<forall>x\<in>set kept. length x = d"
    proof
      fix x assume "x \<in> set kept"
      with sub obtain y where y: "y \<in> set ?app" "x = normalize_vec y" by blast
      from app_d y(1) have "length y = d" by blast
      with y(2) show "length x = d" by (simp add: length_normalize_vec)
    qed
    with ne have "trim_protos k ?app = Inr kept \<and> (\<forall>x\<in>set kept. length x = d) \<and> kept \<noteq> []"
      using kept by blast
    then show ?thesis using True that [of kept] by presburger
  qed
  define seed where "seed = (case ema p of Val e \<Rightarrow> e | _ \<Rightarrow> hd ps)"
  have seed_d: "length seed = d"
    using assms(1) ps_d ps_ne by (cases "ema p") (auto simp: seed_def dim_ok_def)
  have seed_eq: "(case ema p of Val e \<Rightarrow> Inr e
                   | _ \<Rightarrow> (case ps of [] \<Rightarrow> Inl IndexError | x # _ \<Rightarrow> Inr x)) = Inr seed"
    using ps_ne by (cases "ema p"; cases ps) (auto simp: seed_def)
  let ?b = "vadd (scale a (normalize_vec seed)) (scale (1 - a) (normalize_vec v))"
  have add: "np_add (scale a (normalize_vec seed)) (scale (1 - a) (normalize_vec v)) = Inr ?b"
    using seed_d assms(2) by (intro np_add_same) (simp add: length_scale length_normalize_vec)
  have b_d: "length ?b = d"
    using seed_d assms(2) by (simp add: vadd_def length_scale length_normalize_vec)
  let ?p' = "p\<lparr>protos := Some ps, ema := Val (normalize_vec ?b),
                count := Some ((case count p of None \<Rightarrow> 0 | Some n \<Rightarrow> n) + 1)\<rparr>"
  have "update_person_proto p v k a = Inr ?p'"
    using ps seed_eq add by (simp add: update_person_proto_def Let_def)
  moreover have "dim_ok d ?p'"
    using ps_d b_d by (simp add: dim_ok_def get_protos_def length_normalize_vec)
  moreover have "get_protos ?p' = ps" by (simp add: get_protos_def)
  ultimately show ?thesis
    using ps_ne by (cases "ema p") (simp_all add: seed_def)
qed

section \<open>Properties of the matcher\<close>

lemma match_step_skip: "map_of (centroids_norm m) cid = None \<Longrightarrow> match_step m cid st = Inr st"
  by (simp add: match_step_def)

lemma match_step_verdict:
  "map_of (centroids_norm m) cid = Some c \<Longrightarrow>
   match_step m cid st =
     (case verdict m c of
        Inl e \<Rightarrow> Inl e
      | Inr None \<Rightarrow> Inr (mint cid c st)
      | Inr (Some b) \<Rightarrow>
          (case update_first (persons st) b c of
             Inl e \<Rightarrow> Inl e
           | Inr ps \<Rightarrow> Inr (st\<lparr>assigned := AList.update cid b (assigned st), persons := ps\<rparr>)))"
  by (auto simp: match_step_def verdict_def split: option.splits list.splits sum.splits)

lemma norm_centroids_fail:
  "(cid, NotNumeric) \<in> set xs \<Longrightarrow> norm_centroids xs acc = Inl ValueError"
proof (induction xs acc rule: norm_centroids.induct)
  case (1 acc)
  then show ?case by simp
next
  case (2 k v rest acc)
  then show ?case
    by (cases v) (auto simp: normalize_np_def)
qed

lemma norm_centroids_keys:
  "norm_centroids xs acc = Inr cn \<Longrightarrow> fst ` set cn = fst ` set acc \<union> fst ` set xs"
proof (induction xs acc rule: norm_centroids.induct)
  case (1 acc)
  then show ?case by simp
next
  case (2 k v rest acc)
  then show ?case
    by (cases v) (auto simp: normalize_np_def dom_update)
qed


lemma match_loop_filter:
  "match_loop m (filter (\<lambda>c. map_of (centroids_norm m) c \<noteq> None) el) st = match_loop m el st"
proof (induction el arbitrary: st)
  case Nil
  then show ?case by simp
next
  case (Cons cid el)
  then show ?case
    by (cases "map_of (centroids_norm m) cid") (auto simp: match_step_skip split: sum.splits)
qed

lemma match_step_Inr:
  assumes "match_step m cid st = Inr st'"
  obtains (skip) "map_of (centroids_norm m) cid = None" "st' = st"
  | (minted) c where "map_of (centroids_norm m) cid = Some c" "verdict m c = Inr None"
      "st' = mint cid c st"
  | (matched) c b ps where "map_of (centroids_norm m) cid = Some c" "verdict m c = Inr (Some b)"
      "update_first (persons st) b c = Inr ps"
      "st' = st\<lparr>assigned := AList.update cid b (assigned st), persons := ps\<rparr>"
proof (cases "map_of (centroids_norm m) cid")
  case None
  with assms skip show ?thesis by (simp add: match_step_skip)
next
  case (Some c)
  show ?thesis
  proof (cases "verdict m c")
    case (Inl e)
    with assms Some show ?thesis by (simp add: match_step_verdict)
  next
    case (Inr v)
    show ?thesis
    proof (cases v)
      case None
      with assms Some Inr minted show ?thesis by (simp add: match_step_verdict)
    next
      case (Some b)
      with assms \<open>map_of (centroids_norm m) cid = Some c\<close> Inr matched show ?thesis
        by (cases "update_first (persons st) b c") (simp_all add: match_step_verdict)
    qed
  qed
qed

lemma keys_update: "fst ` set (AList.update k v al) = insert k (fst ` set al)"
  by (simp add: dom_update)

lemma map_of_Some_key: "map_of al k = Some v \<Longrightarrow> k \<in> fst ` set al"
  by (metis map_of_eq_None_iff option.distinct(1))

lemma match_step_keys:
  assumes "match_step m cid st = Inr st'"
  shows "fst ` set (assigned st') \<subseteq> fst ` set (assigned st) \<union> fst ` set (centroids_norm m) \<and>
    fst ` set (new_nums st') \<subseteq> fst ` set (new_nums st) \<union> fst ` set (centroids_norm m)"
  using assms
proof (cases rule: match_step_Inr)
  case skip
  then show ?thesis by simp
next
  case (minted c)
  then show ?thesis
    using map_of_Some_key [OF minted(1)] by (auto simp: mint_def keys_update)
next
  case (matched c b ps)
  then show ?thesis
    using map_of_Some_key [OF matched(1)] by (auto simp: keys_update)
qed

lemma match_loop_keys:
  "match_loop m el st = Inr st' \<Longrightarrow>
   fst ` set (assigned st') \<subseteq> fst ` set (assigned st) \<union> fst ` set (centroids_norm m) \<and>
   fst ` set (new_nums st') \<subseteq> fst ` set (new_nums st) \<union> fst ` set (centroids_norm m)"
proof (induction el arbitrary: st)
  case Nil
  then show ?case by simp
next
  case (Cons cid el)
  from Cons.prems obtain st1 where s1: "match_step m cid st = Inr st1"
    and rest: "match_loop m el st1 = Inr st'"
    by (auto split: sum.splits)
  from Cons.IH [OF rest] have
    a: "fst ` set (assigned st') \<subseteq> fst ` set (assigned st1) \<union> fst ` set (centroids_norm m)"
    and n: "fst ` set (new_nums st') \<subseteq> fst ` set (new_nums st1) \<union> fst ` set (centroids_norm m)"
    by simp_all
  from match_step_keys [OF s1] have
    a1: "fst ` set (assigned st1) \<subseteq> fst ` set (assigned st) \<union> fst ` set (centroids_norm m)"
    and n1: "fst ` set (new_nums st1) \<subseteq> fst ` set (new_nums st) \<union> fst ` set (centroids_norm m)"
    by simp_all
  from a a1 have "fst ` set (assigned st') \<subseteq> fst ` set (assigned st) \<union> fst ` set (centroids_norm m)"
    by (meson Un_least Un_upper2 subset_trans)
  moreover from n n1 have "fst ` set (new_nums st') \<subseteq> fst ` set (new_nums st) \<union> fst ` set (centroids_norm m)"
    by (meson Un_least Un_upper2 subset_trans)
  ultimately show ?case by simp
qed

lemma match_and_apply_unfold:
  "match_and_apply d pl T M =
     (case norm_centroids (cluster_centroids pl) [] of
        Inl e \<Rightarrow> (Inl e, snd (load_person_index d))
      | Inr cn \<Rightarrow>
         (case stack_of (fst (load_person_index d)) of
            Inl e \<Rightarrow> (Inl e, snd (load_person_index d))
          | Inr Pm \<Rightarrow>
             (case match_loop (matcher_for (fst (load_person_index d)) cn Pm T M)
                     (eligible_clusters pl) (initial_state d) of
                Inl e \<Rightarrow> (Inl e, snd (load_person_index d))
              | Inr st \<Rightarrow> (Inr (outcome_of st), disk_after d st))))"
  by (simp add: match_and_apply_def stack_of_def matcher_for_def initial_state_def outcome_of_def
      disk_after_def Let_def split: prod.splits sum.splits)

lemma match_and_apply_Inr:
  assumes "match_and_apply d pl T M = (Inr out, d')"
  obtains cn Pm st where "norm_centroids (cluster_centroids pl) [] = Inr cn"
    and "stack_of (fst (load_person_index d)) = Inr Pm"
    and "match_loop (matcher_for (fst (load_person_index d)) cn Pm T M)
           (eligible_clusters pl) (initial_state d) = Inr st"
    and "out = outcome_of st" and "d' = disk_after d st"
  using assms unfolding match_and_apply_unfold
  by (auto split: sum.splits)

lemma cur_max_of_load: "cur_max_of (snd (load_person_index d)) = cur_max_of d"
  by (simp add: load_person_index_def cur_max_of_def Let_def split: index_file.splits)

lemma cold_loop:
  assumes "proto_matrix m = None"
  shows "\<exists>st'. match_loop m el st = Inr st' \<and> assigned st' = assigned st \<and>
           persons st' = persons st @
              fresh_persons (cur_max st) (List.map_filter (map_of (centroids_norm m)) el)"
proof (induction el arbitrary: st)
  case Nil
  then show ?case by (simp add: map_filter_simps)
next
  case (Cons cid el)
  show ?case
  proof (cases "map_of (centroids_norm m) cid")
    case None
    with Cons [of st] show ?thesis
      by (simp add: match_step_skip map_filter_simps)
  next
    case (Some c)
    have step: "match_step m cid st = Inr (mint cid c st)"
      using Some assms by (simp add: match_step_verdict verdict_def)
    from Cons [of "mint cid c st"] obtain st' where
      "match_loop m el (mint cid c st) = Inr st'" "assigned st' = assigned (mint cid c st)"
      "persons st' = persons (mint cid c st) @
          fresh_persons (cur_max (mint cid c st)) (List.map_filter (map_of (centroids_norm m)) el)"
      by blast
    with step Some show ?thesis
      by (simp add: mint_def map_filter_simps)
  qed
qed

lemma map_of_update: "map_of (AList.update k v al) k' = (if k' = k then Some v else map_of al k')"
  by (simp add: update_conv')

lemma map_of_score_step:
  "map_of (score_step (s, n') d) n = (if n = n' then opt_max s (map_of d n) else map_of d n)"
  by (auto simp: score_step_def opt_max_def map_of_update max_def split: option.splits)

lemma keys_score_step: "fst ` set (score_step (s, n) d) = insert n (fst ` set d)"
  by (auto simp: score_step_def keys_update dest: map_of_Some_key split: option.splits)

lemma distinct_score_step: "distinct (map fst d) \<Longrightarrow> distinct (map fst (score_step z d))"
  by (simp add: score_step_def distinct_update split: option.splits)

lemma fold_score_step:
  "distinct (map fst acc) \<Longrightarrow>
   distinct (map fst (fold score_step zs acc)) \<and>
   fst ` set (fold score_step zs acc) = fst ` set acc \<union> snd ` set zs \<and>
   map_of (fold score_step zs acc) n =
     fold opt_max (map fst (filter (\<lambda>z. snd z = n) zs)) (map_of acc n)"
proof (induction zs arbitrary: acc)
  case Nil
  then show ?case by simp
next
  case (Cons z zs)
  obtain s n' where z: "z = (s, n')" by (cases z)
  have d: "distinct (map fst (score_step z acc))"
    using Cons.prems by (rule distinct_score_step)
  from Cons.IH [OF d] show ?case
    by (auto simp: z keys_score_step map_of_score_step)
qed

lemma fold_opt_max_Some: "fold opt_max ss (Some a) = Some (Max (set (a # ss)))"
proof (induction ss arbitrary: a)
  case Nil
  then show ?case by simp
next
  case (Cons s ss)
  have "Max (insert (max a s) (set ss)) = Max (insert a (insert s (set ss)))"
    by (cases "ss = []") (auto simp: max.assoc)
  with Cons [of "max a s"] show ?case by (simp add: opt_max_def)
qed

lemma fold_opt_max_None:
  "fold opt_max ss None = (if ss = [] then None else Some (Max (set ss)))"
  by (cases ss) (simp_all add: fold_opt_max_Some opt_max_def)

lemma top2_char:
  assumes "distinct (map fst d)" and "d \<noteq> []"
  shows "\<exists>k s1 s2. top2 d = (Some k, s1, s2) \<and> map_of d k = Some s1 \<and>
           (\<forall>x\<in>set d. snd x \<le> s1) \<and>
           s2 = (if fst ` set d - {k} = {} then - 1
                 else Max (snd ` {x \<in> set d. fst x \<noteq> k}))"
proof -
  define xs where "xs = sorted_pairs_of d"
  have set_xs: "set xs = set d" by (simp add: xs_def sorted_pairs_of_def)
  have dist: "distinct (map fst xs)"
    using assms(1) by (simp add: xs_def sorted_pairs_of_def distinct_map)
  have srt: "sorted (map (\<lambda>x. - snd x) xs)"
    by (simp add: xs_def sorted_pairs_of_def)
  show ?thesis
  proof (cases xs)
    case Nil
    with set_xs assms(2) show ?thesis by simp
  next
    case (Cons x rest)
    obtain k s where x: "x = (k, s)" by (cases x)
    have hd_in: "(k, s) \<in> set d" using set_xs Cons x by auto
    then have mk: "map_of d k = Some s" using assms(1) by simp
    have "\<forall>y\<in>set xs. snd y \<le> s"
      using srt Cons x by auto
    then have le: "\<forall>y\<in>set d. snd y \<le> s"
      by (simp only: set_xs)
    have tail: "{y \<in> set d. fst y \<noteq> k} = set rest"
    proof -
      have "k \<notin> fst ` set rest" using dist Cons x by auto
      then show ?thesis using set_xs Cons x by force
    qed
    show ?thesis
    proof (cases rest)
      case Nil
      then have "top2 d = (Some k, s, - 1)"
        using Cons x by (simp add: top2_def xs_def [symmetric])
      moreover have "fst ` set d - {k} = {}"
        using set_xs Cons x Nil by auto
      ultimately show ?thesis using mk le by simp
    next
      case (Cons y rest')
      obtain k' s' where y: "y = (k', s')" by (cases y)
      have t: "top2 d = (Some k, s, s')"
        using \<open>xs = x # rest\<close> x Cons y by (simp add: top2_def xs_def [symmetric])
      have "k' \<noteq> k" using dist \<open>xs = x # rest\<close> x Cons y by auto
      moreover have "(k', s') \<in> set d" using set_xs \<open>xs = x # rest\<close> Cons y by auto
      ultimately have ne: "fst ` set d - {k} \<noteq> {}" by force
      have "\<forall>z\<in>set rest. snd z \<le> s'"
        using srt \<open>xs = x # rest\<close> Cons y by auto
      moreover have "(k', s') \<in> set rest" using Cons y by simp
      ultimately have "Max (snd ` set rest) = s'"
        by (intro Max_eqI) force+
      with t mk le ne tail show ?thesis by simp
    qed
  qed
qed

lemma custom_threshold_absent: "num \<notin> number ` set ps \<Longrightarrow> custom_threshold ps num = None"
proof -
  assume "num \<notin> number ` set ps"
  then have "find (\<lambda>p. number p = num) ps = None"
    by (auto simp: find_None_iff)
  then show ?thesis by (simp add: custom_threshold_def)
qed

lemma per_thr_fold:
  "distinct (map number ps) \<Longrightarrow>
   map_of (fold (\<lambda>p m. case thr p of Val t \<Rightarrow> AList.update (number p) t m | _ \<Rightarrow> m) ps acc) num =
     (case custom_threshold ps num of Some t \<Rightarrow> Some t | None \<Rightarrow> map_of acc num)"
proof (induction ps arbitrary: acc)
  case Nil
  then show ?case by (simp add: custom_threshold_def)
next
  case (Cons p ps)
  let ?f = "\<lambda>p m. case thr p of Val t \<Rightarrow> AList.update (number p) t m | _ \<Rightarrow> m"
  have IH: "map_of (fold ?f ps (?f p acc)) num =
     (case custom_threshold ps num of Some t \<Rightarrow> Some t | None \<Rightarrow> map_of (?f p acc) num)"
    using Cons by simp
  show ?case
  proof (cases "number p = num")
    case True
    then have "num \<notin> number ` set ps" using Cons.prems by auto
    then have "custom_threshold ps num = None" by (rule custom_threshold_absent)
    with IH True show ?thesis
      by (cases "thr p") (simp_all add: custom_threshold_def map_of_update)
  next
    case False
    then have "custom_threshold (p # ps) num = custom_threshold ps num"
      by (simp add: custom_threshold_def)
    moreover have "map_of (?f p acc) num = map_of acc num"
      using False by (cases "thr p") (simp_all add: map_of_update)
    ultimately show ?thesis using IH by (cases "custom_threshold ps num") simp_all
  qed
qed

lemma per_thr_of_custom:
  "distinct (map number ps) \<Longrightarrow> map_of (per_thr_of ps) num = custom_threshold ps num"
  by (simp add: per_thr_of_def per_thr_fold split: option.splits)

lemma zip_sims_owners:
  "zip (map (\<lambda>r. dot r c) (map fst rows)) (map snd rows) = map (\<lambda>r. (dot (fst r) c, snd r)) rows"
  by (induction rows) auto

lemma scores_of_rows:
  fixes rows :: "(vec \<times> int) list" and c :: vec
  defines "pps \<equiv> per_person_scores (map (\<lambda>r. dot r c) (map fst rows)) (map snd rows)"
  shows "distinct (map fst pps)"
    and "fst ` set pps = snd ` set rows"
    and "n \<in> snd ` set rows \<Longrightarrow> map_of pps n = Some (record_score rows c n)"
proof -
  let ?zs = "map (\<lambda>r. (dot (fst r) c, snd r)) rows"
  have pps: "pps = fold score_step ?zs []"
    by (simp add: pps_def per_person_scores_def zip_sims_owners del: map_map)
  note f = fold_score_step [of "[]" ?zs]
  show "distinct (map fst pps)" using f by (simp add: pps)
  have "snd ` set ?zs = snd ` set rows" by force
  then show "fst ` set pps = snd ` set rows" using f by (simp add: pps)
  have rs: "map fst (filter (\<lambda>z. snd z = n) ?zs) = record_scores rows c n"
    by (simp add: record_scores_def filter_map comp_def)
  assume "n \<in> snd ` set rows"
  then have "record_scores rows c n \<noteq> []"
    by (auto simp: record_scores_def filter_empty_conv)
  then show "map_of pps n = Some (record_score rows c n)"
    using f [of n] by (simp add: pps rs fold_opt_max_None record_score_def)
qed

lemma decide_char:
  fixes rows :: "(vec \<times> int) list"
  assumes "rows \<noteq> []" and "list_all (\<lambda>r. length r = length c) (map fst rows)"
  shows "\<exists>best \<in> snd ` set rows.
           (\<forall>n \<in> snd ` set rows. record_score rows c n \<le> record_score rows c best) \<and>
           decide (map fst rows) (map snd rows) pt T M c =
             Inr (if max T (case map_of pt best of None \<Rightarrow> - (10 ^ 9) | Some t \<Rightarrow> t)
                       \<le> record_score rows c best \<and>
                     M \<le> record_score rows c best - runner_up rows c best
                  then Some best else None)"
proof -
  define pps where "pps = per_person_scores (map (\<lambda>r. dot r c) (map fst rows)) (map snd rows)"
  note sc = scores_of_rows [where rows = rows and c = c, folded pps_def]
  have keys: "fst ` set pps = snd ` set rows" by (rule sc(2))
  have val: "\<And>n. n \<in> snd ` set rows \<Longrightarrow> map_of pps n = Some (record_score rows c n)"
    by (rule sc(3))
  have "pps \<noteq> []" using keys assms(1) by auto
  from top2_char [OF sc(1) this] obtain k s1 s2 where
    t: "top2 pps = (Some k, s1, s2)" and mk: "map_of pps k = Some s1"
    and le: "\<forall>x\<in>set pps. snd x \<le> s1"
    and s2: "s2 = (if fst ` set pps - {k} = {} then - 1
                   else Max (snd ` {x \<in> set pps. fst x \<noteq> k}))"
    by blast
  have k_in: "k \<in> snd ` set rows" using map_of_Some_key [OF mk] keys by simp
  have s1: "s1 = record_score rows c k" using val [OF k_in] mk by simp
  have best: "\<forall>n \<in> snd ` set rows. record_score rows c n \<le> record_score rows c k"
  proof
    fix n assume "n \<in> snd ` set rows"
    from val [OF this] have "(n, record_score rows c n) \<in> set pps" by (rule map_of_SomeD)
    with le show "record_score rows c n \<le> record_score rows c k" unfolding s1 by fastforce
  qed
  have others: "snd ` {x \<in> set pps. fst x \<noteq> k} = record_score rows c ` (snd ` set rows - {k})"
  proof (intro set_eqI iffI)
    fix v assume "v \<in> snd ` {x \<in> set pps. fst x \<noteq> k}"
    then obtain n where n: "(n, v) \<in> set pps" "n \<noteq> k" by auto
    then have "map_of pps n = Some v" using sc(1) by simp
    moreover have "n \<in> snd ` set rows" using n(1) keys by force
    ultimately have "v = record_score rows c n" using val by simp
    with \<open>n \<in> snd ` set rows\<close> n(2) show "v \<in> record_score rows c ` (snd ` set rows - {k})"
      by blast
  next
    fix v assume "v \<in> record_score rows c ` (snd ` set rows - {k})"
    then obtain n where n: "n \<in> snd ` set rows" "n \<noteq> k" "v = record_score rows c n" by auto
    from val [OF n(1)] have "(n, v) \<in> set pps" unfolding n(3) by (rule map_of_SomeD)
    with n(2) show "v \<in> snd ` {x \<in> set pps. fst x \<noteq> k}" by force
  qed
  have set_others: "set (filter (\<lambda>n. n \<noteq> k) (map snd rows)) = snd ` set rows - {k}"
    by auto
  have ru: "s2 = runner_up rows c k"
  proof (cases "snd ` set rows - {k} = {}")
    case True
    then have "filter (\<lambda>n. n \<noteq> k) (map snd rows) = []"
      using set_others by (metis set_empty)
    with True s2 keys show ?thesis by (simp add: runner_up_def)
  next
    case False
    then have "filter (\<lambda>n. n \<noteq> k) (map snd rows) \<noteq> []"
      using set_others by (metis set_empty)
    with False s2 keys others set_others show ?thesis
      by (simp add: runner_up_def Let_def)
  qed
  have mv: "matvec (map fst rows) c = Inr (map (\<lambda>r. dot r c) (map fst rows))"
    using assms(2) by (simp add: matvec_def)
  have "decide (map fst rows) (map snd rows) pt T M c =
      Inr (if thr_use_of pt T (Some k) \<le> s1 \<and> M \<le> s1 - s2 then Some k else None)"
    using t unfolding pps_def decide_def mv by (simp add: nan_to_num_def)
  then show ?thesis
    using k_in best by (auto simp: thr_use_of_def s1 ru)
qed

lemma update_person_proto_number:
  "update_person_proto p c k a = Inr p' \<Longrightarrow> number p' = number p \<and> thr p' = thr p"
  by (auto simp: update_person_proto_def Let_def split: sum.splits if_splits field.splits list.splits)

lemma update_first_numbers:
  "update_first ps b c = Inr ps' \<Longrightarrow> map number ps' = map number ps"
proof (induction ps arbitrary: ps')
  case Nil
  then show ?case by simp
next
  case (Cons p ps)
  then show ?case
    by (auto split: if_splits sum.splits dest: update_person_proto_number)
qed

lemma match_step_numbers:
  assumes "match_step m cid st = Inr st'"
  shows "cur_max st \<le> cur_max st' \<and>
         map number (persons st') = map number (persons st) @ [cur_max st + 1 .. cur_max st']"
  using assms
proof (cases rule: match_step_Inr)
  case skip
  then show ?thesis by simp
next
  case (minted c)
  then show ?thesis by (simp add: mint_def new_person_def)
next
  case (matched c b ps)
  then show ?thesis by (simp add: update_first_numbers)
qed

lemma upto_append: "i \<le> j + 1 \<Longrightarrow> j \<le> k \<Longrightarrow> [i..j] @ [j + 1..k] = [i..k]"
  by (metis upto_split2 add.commute zle_add1_eq_le less_le_not_le linorder_not_less upto_empty append_Nil2 append_Nil order_antisym_conv zless_add1_eq)

lemma match_loop_numbers:
  "match_loop m el st = Inr st' \<Longrightarrow>
   cur_max st \<le> cur_max st' \<and>
   map number (persons st') = map number (persons st) @ [cur_max st + 1 .. cur_max st']"
proof (induction el arbitrary: st)
  case Nil
  then show ?case by simp
next
  case (Cons cid el)
  from Cons.prems obtain st1 where s1: "match_step m cid st = Inr st1"
    and rest: "match_loop m el st1 = Inr st'"
    by (auto split: sum.splits)
  from match_step_numbers [OF s1] Cons.IH [OF rest] show ?case
    by (simp add: upto_append)
qed

lemmas eval_defs = match_and_apply_def load_person_index_def normalize_np_def proto_rows_def
  per_thr_of_def cur_max_of_def match_step_def mint_def merged_nums_def ensure_dir_def
  save_person_index_def Let_def

section \<open>Claims about the prototype set maintainer\<close>

lemma update_seq_bound:
  "update_seq p vs k a = Inr p' \<Longrightarrow> 1 \<le> k \<Longrightarrow>
   vs \<noteq> [] \<or> int (length (get_protos p)) \<le> k \<Longrightarrow> int (length (get_protos p')) \<le> k"
proof (induction vs arbitrary: p)
  case Nil
  then show ?case by simp
next
  case (Cons v vs)
  from Cons.prems(1) obtain p1 where p1: "update_person_proto p v k a = Inr p1"
    and rest: "update_seq p1 vs k a = Inr p'"
    by (auto split: sum.splits)
  from update_person_proto_bound [OF p1 Cons.prems(2)]
  have "int (length (get_protos p1)) \<le> k" .
  with Cons.IH [OF rest Cons.prems(2)] show ?case by blast
qed

lemma update_seq_total:
  "dim_ok d p \<Longrightarrow> \<forall>v\<in>set vs. length v = d \<Longrightarrow> 1 \<le> k \<Longrightarrow>
   \<exists>p'. update_seq p vs k a = Inr p' \<and> dim_ok d p'"
proof (induction vs arbitrary: p)
  case Nil
  then show ?case by simp
next
  case (Cons v vs)
  from update_person_proto_result [OF Cons.prems(1) _ Cons.prems(3), of v a] Cons.prems(2)
  obtain p1 where p1: "update_person_proto p v k a = Inr p1" "dim_ok d p1"
    by auto
  from Cons.IH [OF p1(2) _ Cons.prems(3)] Cons.prems(2)
  obtain p' where "update_seq p1 vs k a = Inr p'" "dim_ok d p'" by auto
  with p1 show ?case by simp
qed

lemma l2norm_pair_left: "l2norm [a, 0] = \<bar>a\<bar>"
  by (simp add: l2norm_def)

lemma l2norm_pair_right: "l2norm [0, b] = \<bar>b\<bar>"
  by (simp add: l2norm_def)

lemma normalize_pair_inj:
  assumes "normalize_vec [a, b] = normalize_vec [a', b]" and "b \<noteq> 0"
  shows "a = a'"
proof -
  define n where "n = l2norm [a, b] + eps"
  define n' where "n' = l2norm [a', b] + eps"
  have pos: "0 < n" "0 < n'"
    using l2norm_nonneg [of "[a, b]"] l2norm_nonneg [of "[a', b]"] eps_pos
    by (auto simp: n_def n'_def)
  from assms(1) have e: "a / n = a' / n'" "b / n = b / n'"
    by (simp_all add: normalize_vec_def Let_def n_def n'_def)
  from e(2) assms(2) pos have "n = n'"
    by (simp add: field_simps)
  with e(1) pos show ?thesis by simp
qed

text \<open>
  C3: with \<open>k_max\<close> at least 1 (it is 5 at the call site), a sequence of updates with
  well-formed vectors returns, and after it the record holds at most \<open>k_max\<close> prototypes
  (for the empty sequence, if it did before). Whenever the trimming step runs, on vectors of
  one length it returns, and what it keeps has exactly \<open>min(k_max, available)\<close> entries, each
  a normalised prototype of the list; this covers both the greedy selection and the fallback
  fill.
\<close>

theorem prototypes_bounded:
  assumes "1 \<le> k_max"
  shows "(dim_ok d p \<and> (\<forall>v\<in>set vs. length v = d) \<longrightarrow> (\<exists>p'. update_seq p vs k_max a = Inr p')) \<and>
         (\<forall>p'. update_seq p vs k_max a = Inr p' \<and>
                (vs \<noteq> [] \<or> int (length (get_protos p)) \<le> k_max) \<longrightarrow>
                int (length (get_protos p')) \<le> k_max) \<and>
         (ps \<noteq> [] \<and> (\<forall>v\<in>set ps. length v = d) \<longrightarrow> (\<exists>kept. trim_protos k_max ps = Inr kept)) \<and>
         (\<forall>kept. trim_protos k_max ps = Inr kept \<longrightarrow>
                int (length kept) = min k_max (int (length ps)) \<and>
                set kept \<subseteq> normalize_vec ` set ps)"
  using assms update_seq_total [of d p vs k_max a] update_seq_bound [of p vs k_max a]
    trim_protos_total [of ps d k_max] trim_protos_exact [of k_max ps]
  by blast



theorem prototypes_bounded_witness:
  "1 \<le> (5::int) \<and>
   dim_ok 1 \<lparr>number = 1, protos = Some [[1], [2], [3], [- 1], [- 2]], proto = None,
             ema = Val [1], count = Some 5, thr = Null\<rparr> \<and>
   list_all (\<lambda>v. length v = 1) [[4], [5::real]] \<and>
   (\<exists>p'. update_seq \<lparr>number = 1, protos = Some [[1], [2], [3], [- 1], [- 2]], proto = None,
             ema = Val [1], count = Some 5, thr = Null\<rparr> [[4], [5]] 5 (9 / 10) = Inr p' \<and>
         int (length (get_protos p')) \<le> 5) \<and>
   (\<exists>kept. trim_protos 5 [[1], [2], [3], [- 1], [- 2], [4]] = Inr kept \<and> int (length kept) = 5)"
proof -
  let ?p = "\<lparr>number = 1, protos = Some [[1], [2], [3], [- 1], [- 2]], proto = None,
             ema = Val [1], count = Some 5, thr = Null\<rparr>"
  have k: "1 \<le> (5::int)" by simp
  have d: "dim_ok 1 ?p" by (simp add: dim_ok_def get_protos_def)
  have v: "\<forall>v\<in>set [[4], [5::real]]. length v = 1" by simp
  have ps: "[[1], [2], [3], [- 1], [- 2], [4::real]] \<noteq> [] \<and>
      (\<forall>v\<in>set [[1], [2], [3], [- 1], [- 2], [4::real]]. length v = 1)" by simp
  note t = prototypes_bounded [OF k, of 1 ?p "[[4], [5]]" "9 / 10" "[[1], [2], [3], [- 1], [- 2], [4]]"]
  from t d v obtain p' where p': "update_seq ?p [[4], [5]] 5 (9 / 10) = Inr p'" by blast
  with t have b: "int (length (get_protos p')) \<le> 5" by blast
  from t ps obtain kept where kept: "trim_protos 5 [[1], [2], [3], [- 1], [- 2], [4]] = Inr kept"
    by blast
  with t have "int (length kept) = min 5 (int (length [[1], [2], [3], [- 1], [- 2], [4::real]]))"
    by blast
  then have "int (length kept) = 5" by simp
  moreover have "list_all (\<lambda>v. length v = 1) [[4], [5::real]]" by simp
  ultimately show ?thesis using k d p' b kept by blast
qed

text \<open>
  C6, as stated, on a record whose running average \<open>[2, 0]\<close> is not of unit length (a legacy
  prototype taken over by the migration) and the observation \<open>[0, 1]\<close>: the update
  normalises the running average before blending, so the result is not
  \<open>normalize(alpha * running_average + (1 - alpha) * normalize(observed))\<close>.
\<close>

theorem running_average_counterexample:
  "update_person_proto
      \<lparr>number = 1, protos = Some [[2, 0]], proto = None, ema = Val [2, 0], count = Some 1, thr = Null\<rparr>
      [0, 1] 5 (9 / 10)
   = Inr \<lparr>number = 1, protos = Some [[2, 0], normalize_vec [0, 1]], proto = None,
          ema = Val (normalize_vec (vadd (scale (9 / 10) (normalize_vec [2, 0]))
                                         (scale (1 - 9 / 10) (normalize_vec [0, 1])))),
          count = Some 2, thr = Null\<rparr> \<and>
   normalize_vec (vadd (scale (9 / 10) (normalize_vec [2, 0])) (scale (1 - 9 / 10) (normalize_vec [0, 1])))
   \<noteq> normalize_vec (vadd (scale (9 / 10) [2, 0]) (scale (1 - 9 / 10) (normalize_vec [0, 1])))"
proof
  show "update_person_proto
      \<lparr>number = 1, protos = Some [[2, 0]], proto = None, ema = Val [2, 0], count = Some 1, thr = Null\<rparr>
      [0, 1] 5 (9 / 10)
   = Inr \<lparr>number = 1, protos = Some [[2, 0], normalize_vec [0, 1]], proto = None,
          ema = Val (normalize_vec (vadd (scale (9 / 10) (normalize_vec [2, 0]))
                                         (scale (1 - 9 / 10) (normalize_vec [0, 1])))),
          count = Some 2, thr = Null\<rparr>"
    by (simp add: update_person_proto_def get_protos_def Let_def np_add_def vadd_def scale_def
        length_normalize_vec)
next
  have A: "vadd (scale (9 / 10) (normalize_vec [2, 0])) (scale (1 - 9 / 10) (normalize_vec [0, 1]))
      = [18 / (20 + eps * 10), 1 / 10 / (1 + eps)]"
    by (simp add: vadd_def scale_def normalize_vec_def l2norm_pair_left l2norm_pair_right)
  have B: "vadd (scale (9 / 10) [2, 0]) (scale (1 - 9 / 10) (normalize_vec [0, 1]))
      = [9 / 5, 1 / 10 / (1 + eps)]"
    by (simp add: vadd_def scale_def normalize_vec_def l2norm_pair_right)
  have ne: "1 / 10 / (1 + eps) \<noteq> 0" using eps_pos by simp
  have "0 < 20 + eps * 10" using eps_pos by simp
  then have "18 / (20 + eps * 10) \<noteq> (9 / 5 :: real)" using eps_pos by (simp add: field_simps)
  with normalize_pair_inj [OF _ ne] show
    "normalize_vec (vadd (scale (9 / 10) (normalize_vec [2, 0])) (scale (1 - 9 / 10) (normalize_vec [0, 1])))
   \<noteq> normalize_vec (vadd (scale (9 / 10) [2, 0]) (scale (1 - 9 / 10) (normalize_vec [0, 1])))"
    unfolding A B by blast
qed

text \<open>
  C6, amended: for every record and every well-formed observed vector the update returns,
  and sets the running average to
  \<open>normalize(alpha * normalize(s) + (1 - alpha) * normalize(observed))\<close>, where \<open>s\<close> is the
  stored running average, or the first prototype of the updated list when there is none;
  the count becomes the old count plus 1 (1 when there was none).
\<close>

theorem update_running_average:
  assumes "dim_ok d p" and "length v = d" and "1 \<le> k_max"
  shows "\<exists>p'. update_person_proto p v k_max a = Inr p' \<and> get_protos p' \<noteq> [] \<and>
           ema p' = Val (normalize_vec (vadd
              (scale a (normalize_vec (case ema p of Val e \<Rightarrow> e | _ \<Rightarrow> hd (get_protos p'))))
              (scale (1 - a) (normalize_vec v)))) \<and>
           count p' = Some ((case count p of None \<Rightarrow> 0 | Some n \<Rightarrow> n) + 1)"
  using update_person_proto_result [OF assms, of a] by blast

theorem update_running_average_witness:
  "dim_ok 2 \<lparr>number = 1, protos = Some [[2, 0]], proto = None, ema = Val [2, 0],
             count = Some 1, thr = Null\<rparr> \<and>
   length [0, 1 :: real] = 2 \<and> 1 \<le> (5::int) \<and>
   (\<exists>p'. update_person_proto \<lparr>number = 1, protos = Some [[2, 0]], proto = None,
             ema = Val [2, 0], count = Some 1, thr = Null\<rparr> [0, 1] 5 (9 / 10) = Inr p' \<and>
         ema p' = Val (normalize_vec (vadd (scale (9 / 10) (normalize_vec [2, 0]))
                                           (scale (1 - 9 / 10) (normalize_vec [0, 1])))) \<and>
         count p' = Some 2)"
proof -
  let ?p = "\<lparr>number = 1, protos = Some [[2, 0]], proto = None, ema = Val [2, 0],
             count = Some 1, thr = Null\<rparr>"
  have d: "dim_ok 2 ?p" by (simp add: dim_ok_def get_protos_def)
  have l: "length [0, 1 :: real] = 2" by simp
  have k: "1 \<le> (5::int)" by simp
  from update_running_average [OF d l k, of "9 / 10"]
  have "\<exists>p'. update_person_proto ?p [0, 1] 5 (9 / 10) = Inr p' \<and>
         ema p' = Val (normalize_vec (vadd (scale (9 / 10) (normalize_vec [2, 0]))
                                           (scale (1 - 9 / 10) (normalize_vec [0, 1])))) \<and>
         count p' = Some 2"
    by auto
  with d l k show ?thesis by blast
qed

section \<open>Claims about the vector math\<close>




section \<open>Claims about the registry store\<close>

lemma migrate_fields:
  fixes p :: person
  defines "q \<equiv> fst (migrate p)"
  shows "number q = number p"
    and "protos q = (case protos p of None \<Rightarrow> Some (case proto p of Some v \<Rightarrow> [v] | None \<Rightarrow> [])
                     | Some ps \<Rightarrow> Some ps)"
    and "ema q = (if ema p = Missing then (case get_protos q of [] \<Rightarrow> Null | v # _ \<Rightarrow> Val v)
                  else ema p)"
    and "count q = (if count p = None then Some (max 1 (int (length (get_protos q)))) else count p)"
    and "thr q = (if thr p = Missing then Null else thr p)"
  unfolding q_def
  by (auto simp: migrate_def migrate_protos_def migrate_ema_def migrate_count_def
      migrate_thr_def get_protos_def Let_def split: option.splits prod.splits)

lemma load_person_index_persons:
  "fst (load_person_index d) =
     (case index d of Document (Some ps) \<Rightarrow> map (\<lambda>p. fst (migrate p)) ps | _ \<Rightarrow> [])"
  by (simp add: load_person_index_def Let_def comp_def split: index_file.splits option.splits)

text \<open>
  C5: when the registry file is absent or does not parse, \<open>load_person_index\<close> returns the
  empty registry (the function has no error result). When the file parses, every record is
  returned migrated: a record without \<^verbatim>\<open>protos\<close> gets the one-element list of its legacy
  \<^verbatim>\<open>proto\<close> (the empty list if it has neither); a missing \<^verbatim>\<open>ema\<close> becomes the first
  prototype, or null if there is none; a missing \<^verbatim>\<open>count\<close> becomes the number of prototypes,
  at least 1; a missing \<^verbatim>\<open>thr\<close> becomes null; a field that is present is kept.
\<close>

theorem load_person_index_migrates:
  "(index d = Absent \<or> index d = Unparsable \<longrightarrow> fst (load_person_index d) = []) \<and>
   (index d = Document (Some ps) \<longrightarrow>
      length (fst (load_person_index d)) = length ps \<and>
      (\<forall>i<length ps.
         let p = ps ! i; q = fst (load_person_index d) ! i
         in number q = number p \<and>
            (protos p = None \<and> proto p = None \<longrightarrow> protos q = Some []) \<and>
            (\<forall>v. protos p = None \<and> proto p = Some v \<longrightarrow> protos q = Some [v]) \<and>
            (protos p \<noteq> None \<longrightarrow> protos q = protos p) \<and>
            (ema p = Missing \<longrightarrow> ema q = (case get_protos q of [] \<Rightarrow> Null | v # _ \<Rightarrow> Val v)) \<and>
            (ema p \<noteq> Missing \<longrightarrow> ema q = ema p) \<and>
            (count p = None \<longrightarrow> count q = Some (max 1 (int (length (get_protos q))))) \<and>
            (count p \<noteq> None \<longrightarrow> count q = count p) \<and>
            (thr p = Missing \<longrightarrow> thr q = Null) \<and>
            (thr p \<noteq> Missing \<longrightarrow> thr q = thr p)))"
proof (intro conjI impI)
  assume "index d = Absent \<or> index d = Unparsable"
  then show "fst (load_person_index d) = []"
    by (auto simp: load_person_index_persons)
next
  assume doc: "index d = Document (Some ps)"
  then show "length (fst (load_person_index d)) = length ps"
    by (simp add: load_person_index_persons)
  show "\<forall>i<length ps.
         let p = ps ! i; q = fst (load_person_index d) ! i
         in number q = number p \<and>
            (protos p = None \<and> proto p = None \<longrightarrow> protos q = Some []) \<and>
            (\<forall>v. protos p = None \<and> proto p = Some v \<longrightarrow> protos q = Some [v]) \<and>
            (protos p \<noteq> None \<longrightarrow> protos q = protos p) \<and>
            (ema p = Missing \<longrightarrow> ema q = (case get_protos q of [] \<Rightarrow> Null | v # _ \<Rightarrow> Val v)) \<and>
            (ema p \<noteq> Missing \<longrightarrow> ema q = ema p) \<and>
            (count p = None \<longrightarrow> count q = Some (max 1 (int (length (get_protos q))))) \<and>
            (count p \<noteq> None \<longrightarrow> count q = count p) \<and>
            (thr p = Missing \<longrightarrow> thr q = Null) \<and>
            (thr p \<noteq> Missing \<longrightarrow> thr q = thr p)"
  proof (intro allI impI)
    fix i assume i: "i < length ps"
    have q: "fst (load_person_index d) ! i = fst (migrate (ps ! i))"
      using doc i by (simp add: load_person_index_persons)
    show "let p = ps ! i; q = fst (load_person_index d) ! i
         in number q = number p \<and>
            (protos p = None \<and> proto p = None \<longrightarrow> protos q = Some []) \<and>
            (\<forall>v. protos p = None \<and> proto p = Some v \<longrightarrow> protos q = Some [v]) \<and>
            (protos p \<noteq> None \<longrightarrow> protos q = protos p) \<and>
            (ema p = Missing \<longrightarrow> ema q = (case get_protos q of [] \<Rightarrow> Null | v # _ \<Rightarrow> Val v)) \<and>
            (ema p \<noteq> Missing \<longrightarrow> ema q = ema p) \<and>
            (count p = None \<longrightarrow> count q = Some (max 1 (int (length (get_protos q))))) \<and>
            (count p \<noteq> None \<longrightarrow> count q = count p) \<and>
            (thr p = Missing \<longrightarrow> thr q = Null) \<and>
            (thr p \<noteq> Missing \<longrightarrow> thr q = thr p)"
      unfolding Let_def q
      using migrate_fields [of "ps ! i"] by (auto split: option.splits)
  qed
qed

theorem load_person_index_migrates_witness:
  "index \<lparr>index = Document (Some [\<lparr>number = 1, protos = None, proto = Some [1, 0],
       ema = Missing, count = None, thr = Missing\<rparr>]), numbered_dirs = []\<rparr>
     = Document (Some [\<lparr>number = 1, protos = None, proto = Some [1, 0],
       ema = Missing, count = None, thr = Missing\<rparr>]) \<and>
   (let q = fst (load_person_index \<lparr>index = Document (Some [\<lparr>number = 1, protos = None,
       proto = Some [1, 0], ema = Missing, count = None, thr = Missing\<rparr>]), numbered_dirs = []\<rparr>) ! 0
    in protos q = Some [[1, 0]] \<and> ema q = Val [1, 0] \<and> count q = Some 1 \<and> thr q = Null)"
  using load_person_index_migrates [of
      "\<lparr>index = Document (Some [\<lparr>number = 1, protos = None, proto = Some [1, 0],
         ema = Missing, count = None, thr = Missing\<rparr>]), numbered_dirs = []\<rparr>"
      "[\<lparr>number = 1, protos = None, proto = Some [1, 0],
         ema = Missing, count = None, thr = Missing\<rparr>]"]
  by (simp add: Let_def get_protos_def)

section \<open>Claims about the similarity matcher\<close>

text \<open>
  C1: a centroid that the loop processes against a non-empty prototype matrix, in a
  registry with unique numbers and a global threshold of at least \<open>-10^9\<close> (it is clamped to
  0..1). There is a top record \<open>best\<close>, whose best score \<open>s1\<close> (the largest similarity over
  its prototype rows) is the largest of all records; \<open>s2\<close> is the best score among the other
  records, or -1 when there is none. The centroid is assigned to \<open>best\<close>, whose record is
  updated, if and only if \<open>s1 \<ge> max(T, custom threshold of best, when present)\<close> and
  \<open>s1 - s2 \<ge> M\<close>; otherwise a new person is minted, whatever \<open>s1\<close> is.
\<close>

theorem match_decision:
  assumes "proto_rows persons0 \<noteq> []"
    and "list_all (\<lambda>r. length (fst r) = length c) (proto_rows persons0)"
    and "distinct (map number persons0)"
    and "- (10 ^ 9) \<le> T"
    and "map_of cn cid = Some c"
  shows "\<exists>best \<in> snd ` set (proto_rows persons0).
           (\<forall>n \<in> snd ` set (proto_rows persons0).
              record_score (proto_rows persons0) c n \<le> record_score (proto_rows persons0) c best) \<and>
           match_step (matcher_for persons0 cn (Some (map fst (proto_rows persons0))) T M) cid st =
             (if max T (case custom_threshold persons0 best of None \<Rightarrow> T | Some t \<Rightarrow> t)
                   \<le> record_score (proto_rows persons0) c best \<and>
                 M \<le> record_score (proto_rows persons0) c best - runner_up (proto_rows persons0) c best
              then (case update_first (persons st) best c of
                      Inl e \<Rightarrow> Inl e
                    | Inr ps \<Rightarrow> Inr (st\<lparr>assigned := AList.update cid best (assigned st), persons := ps\<rparr>))
              else Inr (mint cid c st))"
proof -
  define rows where "rows = proto_rows persons0"
  let ?m = "matcher_for persons0 cn (Some (map fst rows)) T M"
  have dims: "list_all (\<lambda>r. length r = length c) (map fst rows)"
    using assms(2) by (simp add: rows_def list_all_iff)
  have ne: "rows \<noteq> []" using assms(1) by (simp add: rows_def)
  from decide_char [OF ne dims, of "per_thr_of persons0" T M]
  obtain best where b: "best \<in> snd ` set rows"
    and top: "\<forall>n \<in> snd ` set rows. record_score rows c n \<le> record_score rows c best"
    and dec: "decide (map fst rows) (map snd rows) (per_thr_of persons0) T M c =
             Inr (if max T (case map_of (per_thr_of persons0) best of None \<Rightarrow> - (10 ^ 9) | Some t \<Rightarrow> t)
                       \<le> record_score rows c best \<and>
                     M \<le> record_score rows c best - runner_up rows c best
                  then Some best else None)"
    by blast
  have thr: "max T (case map_of (per_thr_of persons0) best of None \<Rightarrow> - (10 ^ 9) | Some t \<Rightarrow> t)
      = max T (case custom_threshold persons0 best of None \<Rightarrow> T | Some t \<Rightarrow> t)"
    using assms(4) by (simp add: per_thr_of_custom [OF assms(3)] split: option.splits)
  obtain r rs where rr: "map fst rows = r # rs" using ne by (cases rows) auto
  have v: "verdict ?m c = decide (map fst rows) (map snd rows) (per_thr_of persons0) T M c"
    using rr by (simp add: verdict_def matcher_for_def rows_def)
  have cm: "map_of (centroids_norm ?m) cid = Some c"
    using assms(5) by (simp add: matcher_for_def)
  have "match_step ?m cid st =
             (if max T (case custom_threshold persons0 best of None \<Rightarrow> T | Some t \<Rightarrow> t)
                   \<le> record_score rows c best \<and>
                 M \<le> record_score rows c best - runner_up rows c best
              then (case update_first (persons st) best c of
                      Inl e \<Rightarrow> Inl e
                    | Inr ps \<Rightarrow> Inr (st\<lparr>assigned := AList.update cid best (assigned st), persons := ps\<rparr>))
              else Inr (mint cid c st))"
    unfolding match_step_verdict [OF cm] v dec thr by simp
  with b top show ?thesis unfolding rows_def by blast
qed

theorem match_decision_witness:
  "proto_rows two_persons \<noteq> [] \<and>
   list_all (\<lambda>r. length (fst r) = length (normalize_vec [1])) (proto_rows two_persons) \<and>
   distinct (map number two_persons) \<and>
   - (10 ^ 9) \<le> (52 / 100 :: real) \<and>
   map_of [(7 :: int, normalize_vec [1])] 7 = Some (normalize_vec [1]) \<and>
   (\<exists>best \<in> snd ` set (proto_rows two_persons).
      (\<forall>n \<in> snd ` set (proto_rows two_persons).
         record_score (proto_rows two_persons) (normalize_vec [1]) n
           \<le> record_score (proto_rows two_persons) (normalize_vec [1]) best) \<and>
      match_step (matcher_for two_persons [(7, normalize_vec [1])]
                    (Some (map fst (proto_rows two_persons))) (52 / 100) (8 / 100))
          7 \<lparr>persons = two_persons, assigned = [], new_nums = [], cur_max = 2\<rparr>
      = (if max (52 / 100) (case custom_threshold two_persons best of None \<Rightarrow> 52 / 100 | Some t \<Rightarrow> t)
               \<le> record_score (proto_rows two_persons) (normalize_vec [1]) best \<and>
             8 / 100 \<le> record_score (proto_rows two_persons) (normalize_vec [1]) best
                        - runner_up (proto_rows two_persons) (normalize_vec [1]) best
         then (case update_first (persons \<lparr>persons = two_persons, assigned = [], new_nums = [], cur_max = 2\<rparr>)
                      best (normalize_vec [1]) of
                 Inl e \<Rightarrow> Inl e
               | Inr ps \<Rightarrow> Inr (\<lparr>persons = two_persons, assigned = [], new_nums = [], cur_max = 2\<rparr>
                     \<lparr>assigned := AList.update 7 best
                         (assigned \<lparr>persons = two_persons, assigned = [], new_nums = [], cur_max = 2\<rparr>),
                      persons := ps\<rparr>))
         else Inr (mint 7 (normalize_vec [1])
                     \<lparr>persons = two_persons, assigned = [], new_nums = [], cur_max = 2\<rparr>))) \<and>
   record_score (proto_rows two_persons) (normalize_vec [1]) 1 = (1 / (1 + eps))\<^sup>2 \<and>
   runner_up (proto_rows two_persons) (normalize_vec [1]) 1 = - ((1 / (1 + eps))\<^sup>2) \<and>
   assigned (projr (match_step (matcher_for two_persons [(7, normalize_vec [1])]
                    (Some (map fst (proto_rows two_persons))) (52 / 100) (8 / 100))
          7 \<lparr>persons = two_persons, assigned = [], new_nums = [], cur_max = 2\<rparr>)) = [(7, 1)]"
proof -
  have rows: "proto_rows two_persons = [(normalize_vec [1], 1), (normalize_vec [- 1], 2)]"
    by (simp add: two_persons_def proto_rows_def person_protos_def get_protos_def)
  have ne: "proto_rows two_persons \<noteq> []" by (simp add: rows)
  have dims: "list_all (\<lambda>r. length (fst r) = length (normalize_vec [1])) (proto_rows two_persons)"
    by (simp add: rows length_normalize_vec)
  have dist: "distinct (map number two_persons)" by (simp add: two_persons_def)
  have T: "- (10 ^ 9) \<le> (52 / 100 :: real)" by simp
  have c: "map_of [(7 :: int, normalize_vec [1])] 7 = Some (normalize_vec [1])" by simp
  have rs: "record_score (proto_rows two_persons) (normalize_vec [1]) 1 = (1 / (1 + eps))\<^sup>2"
    by (simp add: rows record_score_def record_scores_def dot_def normalize_vec_def l2norm_single
        power2_eq_square)
  have ru: "runner_up (proto_rows two_persons) (normalize_vec [1]) 1 = - ((1 / (1 + eps))\<^sup>2)"
    by (simp add: rows runner_up_def record_score_def record_scores_def dot_def normalize_vec_def
        l2norm_single power2_eq_square)
  have ev: "assigned (projr (match_step (matcher_for two_persons [(7, normalize_vec [1])]
                    (Some (map fst (proto_rows two_persons))) (52 / 100) (8 / 100))
          7 \<lparr>persons = two_persons, assigned = [], new_nums = [], cur_max = 2\<rparr>)) = [(7, 1)]"
    by (simp add: two_persons_def proto_rows_def person_protos_def match_step_def matcher_for_def
        decide_def matvec_def normalize_vec_def l2norm_single dot_def nan_to_num_def
        per_person_scores_def score_step_def top2_def sorted_pairs_of_def thr_use_of_def eps_def
        per_thr_of_def update_person_proto_def get_protos_def np_add_def scale_def Let_def)
  note th = match_decision [OF ne dims dist T c, of "8 / 100"
      "\<lparr>persons = two_persons, assigned = [], new_nums = [], cur_max = 2\<rparr>"]
  show ?thesis
    by (intro conjI; (rule th ne dims dist T c rs ru ev))
qed

text \<open>
  C2, as stated, on a cold start with two identical centroids: the second one is not matched
  to the person minted for the first, although that person is in the in-memory registry by
  then; both are minted.
\<close>

theorem cold_start_no_match_in_batch:
  "match_and_apply \<lparr>index = Absent, numbered_dirs = []\<rparr>
      \<lparr>cluster_centroids = [(1, Floats [1]), (2, Floats [1])], eligible_clusters = [1, 2]\<rparr>
      (52 / 100) (8 / 100)
   = (Inr \<lparr>persons_count = 2, out_assigned = [], out_new_nums = [(1, 1), (2, 2)],
           out_persons = [new_person 1 (normalize_vec [1]), new_person 2 (normalize_vec [1])]\<rparr>,
      \<lparr>index = Document (Some [new_person 1 (normalize_vec [1]), new_person 2 (normalize_vec [1])]),
        numbered_dirs = [1, 2]\<rparr>)"
  by (simp add: eval_defs)

text \<open>
  C2, amended: when the registry holds no prototype (in particular when there is no registry
  file), every eligible cluster whose centroid is present is minted as a new person, numbered
  consecutively from \<open>running_max + 1\<close> in processing order, so the first one becomes person
  \<open>running_max + 1\<close>; nothing is assigned: a candidate is never compared with a person
  minted in the same batch.
\<close>

theorem cold_start_mints_all:
  assumes "proto_rows (fst (load_person_index d)) = []"
    and "norm_centroids (cluster_centroids pl) [] = Inr cn"
  shows "\<exists>out d'. match_and_apply d pl T M = (Inr out, d') \<and> out_assigned out = [] \<and>
           out_persons out = fst (load_person_index d) @
              fresh_persons (cur_max_of d) (List.map_filter (map_of cn) (eligible_clusters pl))"
proof -
  let ?m = "matcher_for (fst (load_person_index d)) cn None T M"
  have st: "stack_of (fst (load_person_index d)) = Inr None"
    using assms(1) by (simp add: stack_of_def)
  have "proto_matrix ?m = None" by (simp add: matcher_for_def)
  from cold_loop [OF this, of "eligible_clusters pl" "initial_state d"]
  obtain st' where "match_loop ?m (eligible_clusters pl) (initial_state d) = Inr st'"
    "assigned st' = assigned (initial_state d)"
    "persons st' = persons (initial_state d) @
        fresh_persons (cur_max (initial_state d))
          (List.map_filter (map_of (centroids_norm ?m)) (eligible_clusters pl))"
    by blast
  then show ?thesis
    unfolding match_and_apply_unfold
    by (simp add: assms(2) st outcome_of_def initial_state_def matcher_for_def cur_max_of_load)
qed

theorem cold_start_mints_all_witness:
  "proto_rows (fst (load_person_index \<lparr>index = Absent, numbered_dirs = [4]\<rparr>)) = [] \<and>
   norm_centroids [(1, Floats [1]), (2, Floats [1])] []
     = Inr [(1, normalize_vec [1]), (2, normalize_vec [1])] \<and>
   (\<exists>out d'. match_and_apply \<lparr>index = Absent, numbered_dirs = [4]\<rparr>
        \<lparr>cluster_centroids = [(1, Floats [1]), (2, Floats [1])], eligible_clusters = [1, 2]\<rparr>
        (52 / 100) (8 / 100) = (Inr out, d') \<and>
      out_assigned out = [] \<and>
      out_persons out = [new_person 5 (normalize_vec [1]), new_person 6 (normalize_vec [1])])"
proof -
  let ?d = "\<lparr>index = Absent, numbered_dirs = [4]\<rparr>"
  let ?pl = "\<lparr>cluster_centroids = [(1, Floats [1]), (2, Floats [1])], eligible_clusters = [1, 2]\<rparr>"
  have a: "proto_rows (fst (load_person_index ?d)) = []"
    by (simp add: load_person_index_def proto_rows_def)
  have b: "norm_centroids (cluster_centroids ?pl) []
     = Inr [(1, normalize_vec [1]), (2, normalize_vec [1])]"
    by (simp add: normalize_np_def)
  from cold_start_mints_all [OF a b, of "52 / 100" "8 / 100"] a b show ?thesis
    by (simp add: load_person_index_def cur_max_of_def map_filter_simps)
qed

text \<open>
  C7, as stated, on a batch whose first centroid is not numeric: the conversion error is not
  caught, the invocation ends with it, and the second, well-formed candidate is not processed.
\<close>

theorem malformed_centroid_aborts:
  "match_and_apply \<lparr>index = Absent, numbered_dirs = []\<rparr>
      \<lparr>cluster_centroids = [(1, NotNumeric), (2, Floats [1])], eligible_clusters = [1, 2]\<rparr>
      (52 / 100) (8 / 100)
   = (Inl ValueError, \<lparr>index = Absent, numbered_dirs = []\<rparr>)"
  by (simp add: eval_defs)

text \<open>
  C7, amended: a candidate whose centroid is missing is skipped: the invocation returns
  what it returns without that candidate in the batch, and the candidate is in neither
  dictionary. A centroid that the float conversion rejects ends the invocation with the
  error, before any candidate is processed.
\<close>

theorem missing_centroid_skipped:
  "((cid, NotNumeric) \<in> set (cluster_centroids pl) \<longrightarrow>
      match_and_apply d pl T M = (Inl ValueError, snd (load_person_index d))) \<and>
   (cid \<notin> fst ` set (cluster_centroids pl) \<longrightarrow>
      match_and_apply d (pl\<lparr>eligible_clusters := pre @ cid # post\<rparr>) T M =
      match_and_apply d (pl\<lparr>eligible_clusters := pre @ post\<rparr>) T M) \<and>
   (cid \<notin> fst ` set (cluster_centroids pl) \<and> match_and_apply d pl T M = (Inr out, d') \<longrightarrow>
      cid \<notin> fst ` set (out_assigned out) \<and> cid \<notin> fst ` set (out_new_nums out))"
proof -
  have malformed: "match_and_apply d pl T M = (Inl ValueError, snd (load_person_index d))"
    if "(cid, NotNumeric) \<in> set (cluster_centroids pl)"
    using that by (simp add: match_and_apply_unfold norm_centroids_fail)
  have skipped: "match_and_apply d (pl\<lparr>eligible_clusters := pre @ cid # post\<rparr>) T M =
      match_and_apply d (pl\<lparr>eligible_clusters := pre @ post\<rparr>) T M"
    if missing: "cid \<notin> fst ` set (cluster_centroids pl)"
  proof (cases "norm_centroids (cluster_centroids pl) []")
    case (Inl e)
    then show ?thesis by (simp add: match_and_apply_unfold)
  next
    case (Inr cn)
    from norm_centroids_keys [OF Inr] missing have none: "map_of cn cid = None"
      by (simp add: map_of_eq_None_iff)
    have loop: "match_loop m (pre @ cid # post) st = match_loop m (pre @ post) st"
      if "centroids_norm m = cn" for m st
    proof -
      let ?P = "\<lambda>c. map_of (centroids_norm m) c \<noteq> None"
      have "filter ?P (pre @ cid # post) = filter ?P (pre @ post)"
        using none that by simp
      then show ?thesis
        using match_loop_filter [of m "pre @ cid # post" st] match_loop_filter [of m "pre @ post" st]
        by simp
    qed
    show ?thesis
    proof (cases "stack_of (fst (load_person_index d))")
      case (Inl e)
      with Inr show ?thesis by (simp add: match_and_apply_unfold)
    next
      case Pm: (Inr Pm)
      have "centroids_norm (matcher_for (fst (load_person_index d)) cn Pm T M) = cn"
        by (simp add: matcher_for_def)
      from loop [OF this] Inr Pm show ?thesis
        by (simp add: match_and_apply_unfold)
    qed
  qed
  have untouched: "cid \<notin> fst ` set (out_assigned out) \<and> cid \<notin> fst ` set (out_new_nums out)"
    if missing: "cid \<notin> fst ` set (cluster_centroids pl)"
      and ok: "match_and_apply d pl T M = (Inr out, d')"
  proof -
  from ok obtain cn Pm st where cn: "norm_centroids (cluster_centroids pl) [] = Inr cn"
    and loop: "match_loop (matcher_for (fst (load_person_index d)) cn Pm T M)
           (eligible_clusters pl) (initial_state d) = Inr st"
    and out: "out = outcome_of st"
    by (rule match_and_apply_Inr)
  from norm_centroids_keys [OF cn] missing have "cid \<notin> fst ` set cn" by simp
  with match_loop_keys [OF loop]
  show "cid \<notin> fst ` set (out_assigned out) \<and> cid \<notin> fst ` set (out_new_nums out)"
    unfolding out by (auto simp: outcome_of_def initial_state_def matcher_for_def)
  qed
  from malformed skipped untouched show ?thesis by blast
qed

theorem missing_centroid_skipped_witness:
  "(1, NotNumeric) \<in> set (cluster_centroids
       \<lparr>cluster_centroids = [(1, NotNumeric), (2, Floats [1])], eligible_clusters = [1, 2]\<rparr>) \<and>
   match_and_apply \<lparr>index = Absent, numbered_dirs = []\<rparr>
       \<lparr>cluster_centroids = [(1, NotNumeric), (2, Floats [1])], eligible_clusters = [1, 2]\<rparr>
       (52 / 100) (8 / 100)
     = (Inl ValueError, \<lparr>index = Absent, numbered_dirs = []\<rparr>) \<and>
   7 \<notin> fst ` set (cluster_centroids
       \<lparr>cluster_centroids = [(2, Floats [1])], eligible_clusters = [7, 2]\<rparr>) \<and>
   match_and_apply \<lparr>index = Absent, numbered_dirs = []\<rparr>
       \<lparr>cluster_centroids = [(2, Floats [1])], eligible_clusters = [7, 2]\<rparr> (52 / 100) (8 / 100)
     = match_and_apply \<lparr>index = Absent, numbered_dirs = []\<rparr>
       \<lparr>cluster_centroids = [(2, Floats [1])], eligible_clusters = [2]\<rparr> (52 / 100) (8 / 100) \<and>
   match_and_apply \<lparr>index = Absent, numbered_dirs = []\<rparr>
       \<lparr>cluster_centroids = [(2, Floats [1])], eligible_clusters = [7, 2]\<rparr> (52 / 100) (8 / 100)
     = (Inr \<lparr>persons_count = 1, out_assigned = [], out_new_nums = [(2, 1)],
             out_persons = [new_person 1 (normalize_vec [1])]\<rparr>,
        \<lparr>index = Document (Some [new_person 1 (normalize_vec [1])]), numbered_dirs = [1]\<rparr>) \<and>
   (7::int) \<notin> fst ` set [(2, 1 :: int)]"
proof -
  let ?d = "\<lparr>index = Absent, numbered_dirs = []\<rparr>"
  let ?plA = "\<lparr>cluster_centroids = [(1, NotNumeric), (2, Floats [1])], eligible_clusters = [1, 2]\<rparr>"
  let ?plB = "\<lparr>cluster_centroids = [(2, Floats [1])], eligible_clusters = [7, 2]\<rparr>"
  let ?out = "\<lparr>persons_count = 1, out_assigned = [], out_new_nums = [(2, 1)],
             out_persons = [new_person 1 (normalize_vec [1])]\<rparr>"
  let ?d' = "\<lparr>index = Document (Some [new_person 1 (normalize_vec [1])]), numbered_dirs = [1]\<rparr>"
  have a: "(1, NotNumeric) \<in> set (cluster_centroids ?plA)" by simp
  have b: "7 \<notin> fst ` set (cluster_centroids ?plB)" by simp
  have run: "match_and_apply ?d ?plB (52 / 100) (8 / 100) = (Inr ?out, ?d')"
    by (simp add: eval_defs)
  from missing_centroid_skipped [of 1 ?plA ?d "52 / 100" "8 / 100"] a
  have 1: "match_and_apply ?d ?plA (52 / 100) (8 / 100) = (Inl ValueError, ?d)"
    by (simp add: load_person_index_def)
  from missing_centroid_skipped [of 7 ?plB ?d "52 / 100" "8 / 100" "[]" "[2]" ?out ?d'] b run
  have 2: "match_and_apply ?d ?plB (52 / 100) (8 / 100)
     = match_and_apply ?d \<lparr>cluster_centroids = [(2, Floats [1])], eligible_clusters = [2]\<rparr>
          (52 / 100) (8 / 100)"
    and 3: "(7::int) \<notin> fst ` set [(2, 1 :: int)]"
    by simp_all
  from a b run 1 2 3 show ?thesis by blast
qed

section \<open>Properties of an invocation\<close>

lemma migrate_complete: "complete (fst (migrate p))"
  using migrate_fields [of p]
  by (auto simp: complete_def split: option.splits list.splits if_splits)

lemma migrate_noop: "complete p \<Longrightarrow> migrate p = (p, False)"
  by (auto simp: complete_def migrate_def migrate_protos_def migrate_ema_def migrate_count_def
      migrate_thr_def Let_def)

lemma load_complete: "list_all complete (fst (load_person_index d))"
  by (auto simp: load_person_index_persons list_all_iff migrate_complete
      split: index_file.splits option.splits)

lemma load_saved:
  assumes "list_all complete reg" and "index d = Document (Some reg)"
  shows "load_person_index d = (reg, d)"
proof -
  have m: "map migrate reg = map (\<lambda>p. (p, False)) reg"
    using assms(1) by (simp add: list_all_iff migrate_noop)
  have "map fst (map (\<lambda>p. (p, False)) reg) = reg"
    by (induction reg) auto
  moreover have "\<not> list_ex snd (map (\<lambda>p. (p, False)) reg)"
    by (induction reg) auto
  ultimately show ?thesis
    using assms(2) by (simp add: load_person_index_def Let_def m del: map_map)
qed

lemma update_person_proto_complete:
  "update_person_proto p c k a = Inr p' \<Longrightarrow> complete p \<Longrightarrow> complete p'"
  by (auto simp: update_person_proto_def Let_def complete_def
      split: sum.splits if_splits field.splits list.splits)

lemma update_first_complete:
  "update_first ps b c = Inr ps' \<Longrightarrow> list_all complete ps \<Longrightarrow> list_all complete ps'"
proof (induction ps arbitrary: ps')
  case Nil
  then show ?case by simp
next
  case (Cons p ps)
  then show ?case
    by (auto split: if_splits sum.splits dest: update_person_proto_complete)
qed

lemma match_step_complete:
  assumes "match_step m cid st = Inr st'" and "list_all complete (persons st)"
  shows "list_all complete (persons st')"
  using assms(1)
proof (cases rule: match_step_Inr)
  case skip
  with assms(2) show ?thesis by simp
next
  case (minted c)
  with assms(2) show ?thesis by (simp add: mint_def new_person_def complete_def)
next
  case (matched c b ps)
  with assms(2) update_first_complete show ?thesis by auto
qed

lemma match_loop_complete:
  "match_loop m el st = Inr st' \<Longrightarrow> list_all complete (persons st) \<Longrightarrow>
   list_all complete (persons st')"
proof (induction el arbitrary: st)
  case Nil
  then show ?case by simp
next
  case (Cons cid el)
  from Cons.prems(1) obtain st1 where s1: "match_step m cid st = Inr st1"
    and rest: "match_loop m el st1 = Inr st'"
    by (auto split: sum.splits)
  from match_step_complete [OF s1 Cons.prems(2)] Cons.IH [OF rest] show ?case by simp
qed

lemma index_disk_after: "index (disk_after d st) = Document (Some (persons st))"
  by (simp add: disk_after_def save_person_index_def)

lemma sorted_le_last: "sorted xs \<Longrightarrow> y \<in> set xs \<Longrightarrow> y \<le> last xs"
  by (induction xs) auto

lemma last_sort_Max: "xs \<noteq> [] \<Longrightarrow> last (sort xs) = Max (set xs)"
proof -
  assume ne: "xs \<noteq> []"
  then have ne': "sort xs \<noteq> []" by (metis length_0_conv length_sort)
  have "Max (set (sort xs)) = last (sort xs)"
  proof (rule Max_eqI)
    show "finite (set (sort xs))" by simp
    show "last (sort xs) \<in> set (sort xs)" using ne' by (rule last_in_set)
    fix y assume "y \<in> set (sort xs)"
    then show "y \<le> last (sort xs)"
      using sorted_sort [of xs] by (simp add: sorted_le_last)
  qed
  then show ?thesis by simp
qed

lemma cur_max_of_Max:
  "cur_max_of d = (if numbered_dirs d = [] then 0 else int (Max (set (numbered_dirs d))))"
proof (cases "numbered_dirs d = []")
  case True
  then show ?thesis by (simp add: cur_max_of_def)
next
  case False
  then have "sort (numbered_dirs d) \<noteq> []" by (metis length_0_conv length_sort)
  with False show ?thesis by (simp add: cur_max_of_def Let_def last_sort_Max)
qed

lemma cur_max_of_nonneg: "0 \<le> cur_max_of d"
  by (simp add: cur_max_of_Max)

lemma cur_max_of_ge: "n \<in> set (numbered_dirs d) \<Longrightarrow> int n \<le> cur_max_of d"
  by (auto simp: cur_max_of_Max)

lemma cur_max_of_mono:
  assumes "set (numbered_dirs d) \<subseteq> set (numbered_dirs d')"
  shows "cur_max_of d \<le> cur_max_of d'"
proof (cases "numbered_dirs d = []")
  case True
  then show ?thesis by (simp add: cur_max_of_Max)
next
  case False
  then have "Max (set (numbered_dirs d)) \<in> set (numbered_dirs d')"
    using assms Max_in [of "set (numbered_dirs d)"] by auto
  from cur_max_of_ge [OF this] False show ?thesis by (simp add: cur_max_of_Max)
qed

lemma dirs_ensure_dir:
  "set (numbered_dirs (ensure_dir n d)) = set (numbered_dirs d) \<union> (if 0 \<le> n then {nat n} else {})"
  by (auto simp: ensure_dir_def)

lemma dirs_fold_ensure_dir:
  "set (numbered_dirs (fold ensure_dir ns d)) = set (numbered_dirs d) \<union> {nat n |n. n \<in> set ns \<and> 0 \<le> n}"
proof (induction ns arbitrary: d)
  case Nil
  then show ?case by simp
next
  case (Cons n ns)
  show ?case
    by (simp add: Cons dirs_ensure_dir) blast
qed

lemma dirs_load: "numbered_dirs (snd (load_person_index d)) = numbered_dirs d"
  by (simp add: load_person_index_def Let_def split: index_file.splits)

lemma dirs_disk_after:
  "set (numbered_dirs (disk_after d st)) =
     set (numbered_dirs d) \<union> {nat n |n. n \<in> set (merged_nums st) \<and> 0 \<le> n}"
  by (simp add: disk_after_def save_person_index_def dirs_fold_ensure_dir dirs_load)

lemma update_entry: "(k, v) \<in> set (AList.update k v al)"
  by (rule map_of_SomeD) (simp add: map_of_update)

lemma update_keeps: "k \<noteq> k' \<Longrightarrow> (k, v) \<in> set al \<Longrightarrow> (k, v) \<in> set (AList.update k' v' al)"
  by (induction al) auto

lemma merged_contains:
  "distinct (map fst xs) \<Longrightarrow> (k, v) \<in> set xs \<Longrightarrow>
   (k, v) \<in> set (fold (\<lambda>(k, v). AList.update k v) xs acc)"
proof (induction xs arbitrary: acc)
  case Nil
  then show ?case by simp
next
  case (Cons x xs)
  obtain k' v' where x: "x = (k', v')" by (cases x)
  show ?case
  proof (cases "(k, v) \<in> set xs")
    case True
    with Cons show ?thesis by (simp add: x)
  next
    case False
    with Cons.prems have kv: "k' = k" "v' = v" and notin: "k \<notin> fst ` set xs"
      by (auto simp: x)
    have keep: "(k, v) \<in> set (fold (\<lambda>(k, v). AList.update k v) ys acc')"
      if "(k, v) \<in> set acc'" "k \<notin> fst ` set ys" for ys acc'
      using that
    proof (induction ys arbitrary: acc')
      case Nil
      then show ?case by simp
    next
      case (Cons y ys)
      obtain a b where y: "y = (a, b)" by (cases y)
      with Cons.prems have "a \<noteq> k" by auto
      then have "(k, v) \<in> set (AList.update a b acc')"
        using Cons.prems(1) by (intro update_keeps) auto
      with Cons.IH [of "AList.update a b acc'"] Cons.prems(2) show ?case
        by (simp add: y)
    qed
    from keep [OF update_entry notin, of acc] show ?thesis
      by (simp add: x kv)
  qed
qed

lemma match_step_new_nums:
  assumes "match_step m cid st = Inr st'"
  shows "(distinct (map fst (new_nums st)) \<longrightarrow> distinct (map fst (new_nums st'))) \<and>
         (new_nums st' = new_nums st \<and> cur_max st' = cur_max st \<or>
          cur_max st' \<in> snd ` set (new_nums st'))"
  using assms
proof (cases rule: match_step_Inr)
  case skip
  then show ?thesis by simp
next
  case (minted c)
  have "(cid, cur_max st + 1) \<in> set (AList.update cid (cur_max st + 1) (new_nums st))"
    by (rule update_entry)
  then have "cur_max st + 1 \<in> snd ` set (AList.update cid (cur_max st + 1) (new_nums st))"
    by force
  with minted show ?thesis by (simp add: mint_def distinct_update)
next
  case (matched c b ps)
  then show ?thesis by simp
qed

lemma match_loop_new_nums:
  "match_loop m el st = Inr st' \<Longrightarrow>
   (distinct (map fst (new_nums st)) \<longrightarrow> distinct (map fst (new_nums st'))) \<and>
   (new_nums st' = new_nums st \<and> cur_max st' = cur_max st \<or>
    cur_max st' \<in> snd ` set (new_nums st'))"
proof (induction el arbitrary: st)
  case Nil
  then show ?case by simp
next
  case (Cons cid el)
  from Cons.prems obtain st1 where s1: "match_step m cid st = Inr st1"
    and rest: "match_loop m el st1 = Inr st'"
    by (auto split: sum.splits)
  from match_step_new_nums [OF s1] Cons.IH [OF rest] show ?case
    by metis
qed

lemma match_and_apply_Inl:
  "fst (match_and_apply d pl T M) = Inl e \<Longrightarrow>
   snd (match_and_apply d pl T M) = snd (load_person_index d)"
  unfolding match_and_apply_unfold by (auto split: sum.splits)

lemma invocation_minted:
  shows "minted_of d pl T M = [cur_max_of d + 1 .. cur_max_of d + int (length (minted_of d pl T M))]"
    and "cur_max_of d + int (length (minted_of d pl T M))
           \<le> cur_max_of (snd (match_and_apply d pl T M))"
proof -
  have "minted_of d pl T M = [cur_max_of d + 1 .. cur_max_of d + int (length (minted_of d pl T M))] \<and>
      cur_max_of d + int (length (minted_of d pl T M)) \<le> cur_max_of (snd (match_and_apply d pl T M))"
  proof (cases "fst (match_and_apply d pl T M)")
    case (Inl e)
    from match_and_apply_Inl [OF Inl] Inl show ?thesis
      by (simp add: minted_of_def cur_max_of_load)
  next
    case (Inr out)
    then have "match_and_apply d pl T M = (Inr out, snd (match_and_apply d pl T M))"
      by (metis prod.collapse)
    then obtain cn Pm st where
      loop: "match_loop (matcher_for (fst (load_person_index d)) cn Pm T M)
           (eligible_clusters pl) (initial_state d) = Inr st"
      and out: "out = outcome_of st" and d': "snd (match_and_apply d pl T M) = disk_after d st"
      by (rule match_and_apply_Inr)
    let ?c0 = "cur_max_of d"
    have c0: "cur_max (initial_state d) = ?c0" "persons (initial_state d) = fst (load_person_index d)"
      "new_nums (initial_state d) = []"
      by (simp_all add: initial_state_def cur_max_of_load)
    from match_loop_numbers [OF loop] have le: "?c0 \<le> cur_max st"
      and nums: "map number (persons st) = map number (fst (load_person_index d)) @ [?c0 + 1 .. cur_max st]"
      by (simp_all add: c0)
    have "minted_of d pl T M = drop (length (fst (load_person_index d))) (map number (persons st))"
      by (simp add: minted_of_def Inr out outcome_of_def drop_map)
    then have m: "minted_of d pl T M = [?c0 + 1 .. cur_max st]"
      by (simp add: nums)
    then have len: "?c0 + int (length (minted_of d pl T M)) = cur_max st"
      using le by simp
    from match_loop_new_nums [OF loop] have dist: "distinct (map fst (new_nums st))"
      and last: "cur_max st = ?c0 \<or> cur_max st \<in> snd ` set (new_nums st)"
      by (auto simp: c0)
    have "cur_max st \<le> cur_max_of (disk_after d st)"
    proof (cases "cur_max st = ?c0")
      case True
      have "set (numbered_dirs d) \<subseteq> set (numbered_dirs (disk_after d st))"
        by (simp add: dirs_disk_after)
      from cur_max_of_mono [OF this] True show ?thesis by simp
    next
      case False
      with last obtain k where "(k, cur_max st) \<in> set (new_nums st)" by force
      from merged_contains [OF dist this, of "assigned st"]
      have "cur_max st \<in> set (merged_nums st)"
        by (force simp: merged_nums_def)
      moreover have "0 \<le> cur_max st" using le cur_max_of_nonneg [of d] by linarith
      ultimately have "nat (cur_max st) \<in> set (numbered_dirs (disk_after d st))"
        by (auto simp: dirs_disk_after)
      from cur_max_of_ge [OF this] \<open>0 \<le> cur_max st\<close> show ?thesis by simp
    qed
    with m len d' show ?thesis by simp
  qed
  then show "minted_of d pl T M = [cur_max_of d + 1 .. cur_max_of d + int (length (minted_of d pl T M))]"
    and "cur_max_of d + int (length (minted_of d pl T M))
           \<le> cur_max_of (snd (match_and_apply d pl T M))"
    by simp_all
qed

lemma minted_seq_increasing:
  "sorted_wrt (<) (minted_seq d invs) \<and> (\<forall>x\<in>set (minted_seq d invs). cur_max_of d < x)"
proof (induction invs arbitrary: d)
  case Nil
  then show ?case by simp
next
  case (Cons inv invs)
  obtain pl T M where inv: "inv = (pl, T, M)" by (cases inv)
  let ?ms = "minted_of d pl T M"
  let ?d' = "snd (match_and_apply d pl T M)"
  let ?hi = "cur_max_of d + int (length ?ms)"
  note m = invocation_minted [of d pl T M]
  have ms_set: "\<forall>x\<in>set ?ms. cur_max_of d < x \<and> x \<le> ?hi"
  proof
    fix x assume "x \<in> set ?ms"
    then have "x \<in> set [cur_max_of d + 1 .. ?hi]" using m(1) by simp
    then show "cur_max_of d < x \<and> x \<le> ?hi" by simp
  qed
  have ms_sorted: "sorted_wrt (<) ?ms"
    by (subst m(1)) (rule sorted_wrt_upto)
  from Cons [of ?d'] have rest: "sorted_wrt (<) (minted_seq ?d' invs)"
    and above: "\<forall>x\<in>set (minted_seq ?d' invs). cur_max_of ?d' < x"
    by simp_all
  have hi: "?hi \<le> cur_max_of ?d'" by (rule m(2))
  have cross: "\<forall>x\<in>set ?ms. \<forall>y\<in>set (minted_seq ?d' invs). x < y"
    using ms_set above hi by fastforce
  have low: "\<forall>y\<in>set (minted_seq ?d' invs). cur_max_of d < y"
    using above hi by fastforce
  show ?case
    using ms_sorted rest cross ms_set low by (auto simp: inv sorted_wrt_append)
qed


























section \<open>Claims about invocations\<close>

text \<open>
  C4: over any sequence of invocations on one directory, each starting from the disk the
  previous one left, the minted numbers are strictly increasing and never repeat; one
  invocation mints \<open>running_max + 1, running_max + 2, ...\<close>, with \<open>running_max\<close> seeded from the
  largest numbered directory. With an empty registry in a directory without numbered
  sub-directories, one candidate \<open>C1\<close> gives one new person with number 1, prototypes
  \<open>[normalize(C1)]\<close> and count 1.
\<close>

theorem monotonic_numbering:
  "sorted_wrt (<) (minted_seq d invs) \<and> distinct (minted_seq d invs) \<and>
   minted_of d pl T M = [cur_max_of d + 1 .. cur_max_of d + int (length (minted_of d pl T M))] \<and>
   (fst (load_person_index d) = [] \<and> numbered_dirs d = [] \<longrightarrow>
      fst (match_and_apply d \<lparr>cluster_centroids = [(cid, Floats C1)], eligible_clusters = [cid]\<rparr> T M)
        = Inr \<lparr>persons_count = 1, out_assigned = [], out_new_nums = [(cid, 1)],
               out_persons = [\<lparr>number = 1, protos = Some [normalize_vec C1], proto = None,
                                ema = Val (normalize_vec C1), count = Some 1, thr = Null\<rparr>]\<rparr>)"
proof -
  have s: "sorted_wrt (<) (minted_seq d invs)"
    using minted_seq_increasing [of d invs] by simp
  then have dist: "distinct (minted_seq d invs)" by (simp add: strict_sorted_iff)
  have scen: "fst (match_and_apply d \<lparr>cluster_centroids = [(cid, Floats C1)], eligible_clusters = [cid]\<rparr> T M)
        = Inr \<lparr>persons_count = 1, out_assigned = [], out_new_nums = [(cid, 1)],
               out_persons = [\<lparr>number = 1, protos = Some [normalize_vec C1], proto = None,
                                ema = Val (normalize_vec C1), count = Some 1, thr = Null\<rparr>]\<rparr>"
    if e: "fst (load_person_index d) = []" and n: "numbered_dirs d = []"
  proof -
    have c0: "cur_max_of d = 0" using n by (simp add: cur_max_of_def)
    have st: "stack_of [] = Inr None" by (simp add: stack_of_def proto_rows_def)
    show ?thesis
      unfolding match_and_apply_unfold
      by (simp add: e st normalize_np_def matcher_for_def initial_state_def match_step_def
          mint_def outcome_of_def new_person_def cur_max_of_load c0)
  qed
  from s dist invocation_minted(1) [of d pl T M] scen show ?thesis by blast
qed

theorem monotonic_numbering_witness:
  "fst (load_person_index empty_disk) = [] \<and> numbered_dirs empty_disk = [] \<and>
   fst (match_and_apply empty_disk \<lparr>cluster_centroids = [(1, Floats [3])], eligible_clusters = [1]\<rparr>
          (52 / 100) (8 / 100))
     = Inr \<lparr>persons_count = 1, out_assigned = [], out_new_nums = [(1, 1)],
            out_persons = [\<lparr>number = 1, protos = Some [normalize_vec [3]], proto = None,
                             ema = Val (normalize_vec [3]), count = Some 1, thr = Null\<rparr>]\<rparr> \<and>
   minted_seq empty_disk [(first_run, 52 / 100, 8 / 100), (second_run, 52 / 100, 8 / 100)] = [1, 2] \<and>
   sorted_wrt (<) (minted_seq empty_disk
      [(first_run, 52 / 100, 8 / 100), (second_run, 52 / 100, 8 / 100)])"
proof -
  have a: "fst (load_person_index empty_disk) = []" "numbered_dirs empty_disk = []"
    by (simp_all add: empty_disk_def load_person_index_def)
  note t = monotonic_numbering [of empty_disk
      "[(first_run, 52 / 100, 8 / 100), (second_run, 52 / 100, 8 / 100)]"
      first_run "52 / 100" "8 / 100" 1 "[3]"]
  have r1: "match_and_apply empty_disk first_run (52 / 100) (8 / 100)
      = (Inr \<lparr>persons_count = 1, out_assigned = [], out_new_nums = [(1, 1)],
            out_persons = [new_person 1 (normalize_vec [1])]\<rparr>,
         \<lparr>index = Document (Some [new_person 1 (normalize_vec [1])]), numbered_dirs = [1]\<rparr>)"
    by (simp add: empty_disk_def first_run_def eval_defs)
  have l1: "fst (load_person_index
         \<lparr>index = Document (Some [new_person 1 (normalize_vec [1])]), numbered_dirs = [1]\<rparr>)
       = [new_person 1 (normalize_vec [1])]"
    by (simp add: load_person_index_persons migrate_def migrate_protos_def migrate_ema_def
        migrate_count_def migrate_thr_def new_person_def)
  have r2: "map_sum id (\<lambda>out. map number (out_persons out)) (fst (match_and_apply
         \<lparr>index = Document (Some [new_person 1 (normalize_vec [1])]), numbered_dirs = [1]\<rparr>
         second_run (52 / 100) (8 / 100))) = Inr [1, 2]"
    by (simp add: second_run_def eval_defs new_person_def migrate_def migrate_protos_def
        migrate_ema_def migrate_count_def migrate_thr_def person_protos_def get_protos_def
        np_stack_def decide_def matvec_def normalize_vec_def l2norm_single dot_def nan_to_num_def
        per_person_scores_def score_step_def top2_def sorted_pairs_of_def thr_use_of_def eps_def
        update_person_proto_def np_add_def scale_def)
  have m2: "minted_of \<lparr>index = Document (Some [new_person 1 (normalize_vec [1])]), numbered_dirs = [1]\<rparr>
         second_run (52 / 100) (8 / 100) = [2]"
    using r2 unfolding minted_of_def l1
    by (cases "fst (match_and_apply
         \<lparr>index = Document (Some [new_person 1 (normalize_vec [1])]), numbered_dirs = [1]\<rparr>
         second_run (52 / 100) (8 / 100))") (auto simp: drop_map [symmetric])
  have m1: "minted_of empty_disk first_run (52 / 100) (8 / 100) = [1]"
    using r1 a by (simp add: minted_of_def new_person_def)
  have seq: "minted_seq empty_disk [(first_run, 52 / 100, 8 / 100), (second_run, 52 / 100, 8 / 100)]
      = [1, 2]"
    using m1 m2 r1 by simp
  from t a seq show ?thesis by simp
qed

text \<open>
  C8: the registry an invocation saves is read back as it was saved, and the migration
  changes nothing in it (no write-back); the same holds for the registry that the load itself
  writes back, and for any saved registry whose records carry all keys.
\<close>

theorem registry_round_trip:
  "(match_and_apply d pl T M = (Inr out, d') \<longrightarrow>
      index d' = Document (Some (out_persons out)) \<and>
      load_person_index d' = (out_persons out, d')) \<and>
   load_person_index (snd (load_person_index d)) =
      (fst (load_person_index d), snd (load_person_index d)) \<and>
   (list_all complete reg \<longrightarrow>
      load_person_index (save_person_index d reg) = (reg, save_person_index d reg))"
proof -
  have saved: "load_person_index (save_person_index d0 reg0) = (reg0, save_person_index d0 reg0)"
    if "list_all complete reg0" for d0 reg0
    using that by (intro load_saved) (simp_all add: save_person_index_def)
  have run: "index d' = Document (Some (out_persons out)) \<and>
      load_person_index d' = (out_persons out, d')"
    if ok: "match_and_apply d pl T M = (Inr out, d')"
  proof -
    from ok obtain cn Pm st where
      loop: "match_loop (matcher_for (fst (load_person_index d)) cn Pm T M)
           (eligible_clusters pl) (initial_state d) = Inr st"
      and out: "out = outcome_of st" and d': "d' = disk_after d st"
      by (rule match_and_apply_Inr)
    have "list_all complete (persons (initial_state d))"
      by (simp add: initial_state_def load_complete)
    from match_loop_complete [OF loop this] have c: "list_all complete (persons st)" .
    have i: "index d' = Document (Some (persons st))"
      by (simp add: d' index_disk_after)
    from load_saved [OF c i] i show ?thesis
      by (simp add: out outcome_of_def)
  qed
  have again: "load_person_index (snd (load_person_index d)) =
      (fst (load_person_index d), snd (load_person_index d))"
  proof (cases "index (snd (load_person_index d)) = Document (Some (fst (load_person_index d)))")
    case True
    from load_saved [OF load_complete True] show ?thesis .
  next
    case False
    then have same: "snd (load_person_index d) = d"
      by (auto simp: load_person_index_def Let_def split: index_file.splits option.splits if_splits)
    then show ?thesis by (metis prod.collapse)
  qed
  from saved [of reg d] run again show ?thesis by blast
qed

theorem registry_round_trip_witness:
  "match_and_apply empty_disk first_run (52 / 100) (8 / 100)
      = (Inr \<lparr>persons_count = 1, out_assigned = [], out_new_nums = [(1, 1)],
            out_persons = [new_person 1 (normalize_vec [1])]\<rparr>, warm_disk) \<and>
   index warm_disk = Document (Some [new_person 1 (normalize_vec [1])]) \<and>
   load_person_index warm_disk = ([new_person 1 (normalize_vec [1])], warm_disk) \<and>
   list_all complete [new_person 7 [1, 0]] \<and>
   load_person_index (save_person_index empty_disk [new_person 7 [1, 0]])
      = ([new_person 7 [1, 0]], save_person_index empty_disk [new_person 7 [1, 0]])"
proof -
  let ?out = "\<lparr>persons_count = 1, out_assigned = [], out_new_nums = [(1, 1)],
            out_persons = [new_person 1 (normalize_vec [1])]\<rparr>"
  have r1: "match_and_apply empty_disk first_run (52 / 100) (8 / 100) = (Inr ?out, warm_disk)"
    by (simp add: empty_disk_def first_run_def warm_disk_def eval_defs)
  have c: "list_all complete [new_person 7 [1, 0]]"
    by (simp add: complete_def new_person_def)
  note t = registry_round_trip [of empty_disk first_run "52 / 100" "8 / 100" ?out warm_disk
      "[new_person 7 [1, 0]]"]
  from t r1 c show ?thesis by simp
qed





end
